theory Spec2Isabelle
  imports Main "HOL-Library.AList"
begin

section \<open>Values, reflection objects and the store\<close>

text \<open>
  The development embeds \<^verbatim>\<open>src/type.js\<close>: the reflected message type with its
  lazily built views, \<^verbatim>\<open>add\<close>/\<^verbatim>\<open>remove\<close>, \<^verbatim>\<open>create\<close>,
  \<^verbatim>\<open>encode\<close> and \<^verbatim>\<open>decode\<close>.

  JavaScript objects are mutable and shared by reference, so types, fields and arrays
  live in an explicit store and are named by addresses. Numbers are the integers and
  \<open>NaN\<close>; strings, booleans, \<open>null\<close> and \<open>undefined\<close> are primitives; arrays are
  references into the store, other objects are opaque references.
\<close>

type_synonym addr = nat

datatype jsval =
    JUndefined
  | JNull
  | JBool bool
  | JNum int
  | JNaN
  | JStr string
  | JArr addr
  | JObj addr

datatype error =
    DuplicateName string
  | DuplicateId nat
  | NotMember
  | UnsupportedWireType nat nat
  | InvalidWireFormat nat nat
  | BufferUnderrun
  | TypeError
  | CodecError

text \<open>
  \<^verbatim>\<open>object instanceof Field\<close>, \<^verbatim>\<open>object instanceof OneOf\<close>, or any other
  reflection object (enum, type, service, namespace) that ends up in \<^verbatim>\<open>nested\<close>.
\<close>

datatype kind = KField | KOneOf | KNested

text \<open>
  A reflection object that can be a member of a type. The attributes below \<open>parent\<close>
  are those of a resolved Field; \<^verbatim>\<open>field.resolve()\<close> is idempotent and is taken
  to have settled \<open>defaultValue\<close> already, so it is the identity here.
\<close>

record Reflected =
  kind :: kind
  name :: string
  parent :: "addr option"
  field_id :: nat
  required :: bool
  repeated :: bool
  map_rule :: bool
  defaultValue :: jsval
  message :: "addr option"

text \<open>
  The Type object. \<open>fields\<close>, \<open>oneofs\<close> and \<open>nested\<close> are JavaScript objects used as
  dictionaries: association lists in insertion order (names are identifiers, so
  \<^verbatim>\<open>Object.keys\<close> lists them in insertion order). \<open>oneofs\<close> and \<open>nested\<close> start
  out \<^verbatim>\<open>undefined\<close>. The three caches are \<^verbatim>\<open>_fieldsById\<close>,
  \<^verbatim>\<open>_fieldNames\<close> and \<^verbatim>\<open>_prototype\<close>, \<open>None\<close> for \<^verbatim>\<open>null\<close>.
\<close>

record Type =
  tfields :: "(string \<times> addr) list"
  oneofs :: "(string \<times> addr) list option"
  nested :: "(string \<times> addr) list option"
  cached_fieldsById :: "(nat \<rightharpoonup> addr) option"
  cached_fieldNames :: "string list option"
  cached_prototype :: "(string \<rightharpoonup> jsval) option"

record store =
  types :: "addr \<Rightarrow> Type"
  objs :: "addr \<Rightarrow> Reflected"
  arrays :: "addr \<Rightarrow> jsval list"
  next_array :: addr

definition upd_type :: "addr \<Rightarrow> (Type \<Rightarrow> Type) \<Rightarrow> store \<Rightarrow> store" where
  "upd_type t g s = s\<lparr>types := (types s)(t := g (types s t))\<rparr>"

definition upd_obj :: "addr \<Rightarrow> (Reflected \<Rightarrow> Reflected) \<Rightarrow> store \<Rightarrow> store" where
  "upd_obj a g s = s\<lparr>objs := (objs s)(a := g (objs s a))\<rparr>"

section \<open>The lazily built views\<close>

text \<open>
  \<^verbatim>\<open>get fieldNames: return this._fieldNames || (this._fieldNames = Object.keys(this.fields))\<close>.
  An array is truthy even when empty, so a cached list is always returned.
\<close>

definition Type_fieldNames :: "store \<Rightarrow> addr \<Rightarrow> string list \<times> store" where
  "Type_fieldNames s t =
     (case cached_fieldNames (types s t) of
        Some ns \<Rightarrow> (ns, s)
      | None \<Rightarrow>
          (let ns = map fst (tfields (types s t))
           in (ns, upd_type t (\<lambda>T. T\<lparr>cached_fieldNames := Some ns\<rparr>) s)))"

text \<open>
  The loop of the \<^verbatim>\<open>fieldsById\<close> getter. The cache object is filled in place, so
  when the loop throws the entries written so far stay in it: the loop returns the map
  together with the error, if any. Reading \<^verbatim>\<open>.id\<close> of a name that is not a key
  of \<open>fields\<close> is a TypeError.
\<close>

fun fieldsById_loop ::
  "(addr \<Rightarrow> Reflected) \<Rightarrow> (string \<times> addr) list \<Rightarrow> string list \<Rightarrow> (nat \<rightharpoonup> addr)
     \<Rightarrow> error option \<times> (nat \<rightharpoonup> addr)" where
  "fieldsById_loop os fs [] acc = (None, acc)"
| "fieldsById_loop os fs (n # ns) acc =
     (case map_of fs n of
        None \<Rightarrow> (Some TypeError, acc)
      | Some f \<Rightarrow>
          (let i = field_id (os f)
           in if acc i \<noteq> None then (Some (DuplicateId i), acc)
              else fieldsById_loop os fs ns (acc(i \<mapsto> f))))"

definition Type_fieldsById :: "store \<Rightarrow> addr \<Rightarrow> (error + (nat \<rightharpoonup> addr)) \<times> store" where
  "Type_fieldsById s t =
     (case cached_fieldsById (types s t) of
        Some m \<Rightarrow> (Inr m, s)
      | None \<Rightarrow>
          (let (names, s1) = Type_fieldNames s t;
               (e, m) = fieldsById_loop (objs s1) (tfields (types s1 t)) names Map.empty;
               s2 = upd_type t (\<lambda>T. T\<lparr>cached_fieldsById := Some m\<rparr>) s1
           in case e of Some err \<Rightarrow> (Inl err, s2) | None \<Rightarrow> (Inr m, s2)))"

section \<open>exists, add, remove\<close>

text \<open>
  \<^verbatim>\<open>Boolean(this.fields && this.fields[name] || this.nested && this.nested[name]
  || this.oneofs && this.oneofs[name])\<close>: the members are objects, hence truthy.
\<close>

definition Type_exists :: "store \<Rightarrow> addr \<Rightarrow> string \<Rightarrow> bool" where
  "Type_exists s t n =
     (let T = types s t
      in map_of (tfields T) n \<noteq> None
         \<or> (case nested T of None \<Rightarrow> False | Some ns \<Rightarrow> map_of ns n \<noteq> None)
         \<or> (case oneofs T of None \<Rightarrow> False | Some os \<Rightarrow> map_of os n \<noteq> None))"

text \<open>
  Modelled from the spec: \<^verbatim>\<open>ReflectionObject.onAdd\<close> (\<^verbatim>\<open>object.js\<close> is not among the
  sources). On a successful add the container "sets the child's parent back-reference".
\<close>

definition onAdd :: "addr \<Rightarrow> addr \<Rightarrow> store \<Rightarrow> store" where
  "onAdd a t s = upd_obj a (\<lambda>x. x\<lparr>parent := Some t\<rparr>) s"

text \<open>
  Modelled from the spec: \<^verbatim>\<open>Namespace.prototype.add\<close> (\<^verbatim>\<open>namespace.js\<close>
  is not among the sources). It "fails with a DuplicateNameError if a child of that name
  already exists", otherwise "takes ownership, sets the child's parent back-reference".
  Here it stores the child in \<open>nested\<close>, created on demand.
\<close>

definition Namespace_add :: "store \<Rightarrow> addr \<Rightarrow> addr \<Rightarrow> error + store" where
  "Namespace_add s t a =
     (let n = name (objs s a)
      in if Type_exists s t n then Inl (DuplicateName n)
         else Inr (onAdd a t
                (upd_type t (\<lambda>T. T\<lparr>nested :=
                   Some (AList.update n a (case nested T of None \<Rightarrow> [] | Some ns \<Rightarrow> ns))\<rparr>) s)))"

text \<open>
  Modelled from the spec: \<^verbatim>\<open>Namespace.prototype.remove\<close> (\<^verbatim>\<open>namespace.js\<close>
  is not among the sources). It "fails with a NotMemberError if the child is not
  currently owned by this namespace; otherwise detaches it and clears its parent
  back-reference".
\<close>

definition Namespace_remove :: "store \<Rightarrow> addr \<Rightarrow> addr \<Rightarrow> error + store" where
  "Namespace_remove s t a =
     (let n = name (objs s a)
      in case nested (types s t) of
           None \<Rightarrow> Inl NotMember
         | Some ns \<Rightarrow>
             if map_of ns n \<noteq> Some a then Inl NotMember
             else Inr (upd_obj a (\<lambda>x. x\<lparr>parent := None\<rparr>)
                    (upd_type t (\<lambda>T. T\<lparr>nested := Some (AList.delete n ns)\<rparr>) s)))"

text \<open>
  \<^verbatim>\<open>TypePrototype.remove\<close>. For a Field: not a member unless
  \<^verbatim>\<open>this.fields[object.name] === object\<close>; then the key is deleted, both derived
  caches are reset and \<^verbatim>\<open>object.message\<close> is cleared.
\<close>

definition Type_remove :: "store \<Rightarrow> addr \<Rightarrow> addr \<Rightarrow> error + store" where
  "Type_remove s t a =
     (if kind (objs s a) = KField then
        (let n = name (objs s a)
         in if map_of (tfields (types s t)) n \<noteq> Some a then Inl NotMember
            else Inr (upd_obj a (\<lambda>x. x\<lparr>message := None\<rparr>)
                   (upd_type t (\<lambda>T. T\<lparr>tfields := AList.delete n (tfields T),
                                        cached_fieldsById := None,
                                        cached_fieldNames := None\<rparr>) s)))
      else Namespace_remove s t a)"

text \<open>
  \<^verbatim>\<open>TypePrototype.add\<close>. The name check comes first. A Field that has a parent is
  removed from it (an error of that remove propagates; parents are types here, so the
  call is \<^verbatim>\<open>TypePrototype.remove\<close>); then it is stored under its
  name, both derived caches are reset, \<^verbatim>\<open>object.message\<close> is set and
  \<^verbatim>\<open>onAdd\<close> runs. A OneOf goes to \<open>oneofs\<close>, created on demand. Anything else
  is handed to the namespace.
\<close>

definition Type_add :: "store \<Rightarrow> addr \<Rightarrow> addr \<Rightarrow> error + store" where
  "Type_add s t a =
     (let n = name (objs s a)
      in if Type_exists s t n then Inl (DuplicateName n)
         else if kind (objs s a) = KField then
           (case (case parent (objs s a) of
                    None \<Rightarrow> Inr s
                  | Some p \<Rightarrow> Type_remove s p a) of
              Inl e \<Rightarrow> Inl e
            | Inr s1 \<Rightarrow>
                Inr (onAdd a t
                  (upd_obj a (\<lambda>x. x\<lparr>message := Some t\<rparr>)
                    (upd_type t (\<lambda>T. T\<lparr>tfields := AList.update n a (tfields T),
                                         cached_fieldsById := None,
                                         cached_fieldNames := None\<rparr>) s1))))
         else if kind (objs s a) = KOneOf then
           Inr (onAdd a t
             (upd_type t (\<lambda>T. T\<lparr>oneofs :=
                Some (AList.update n a (case oneofs T of None \<Rightarrow> [] | Some os \<Rightarrow> os))\<rparr>) s))
         else Namespace_add s t a)"

text \<open>
  A successful add of a field: the store after the removal from the old parent, if
  any, and the three updates that follow. The old parent is never the type itself.
\<close>

definition field_added :: "addr \<Rightarrow> addr \<Rightarrow> string \<Rightarrow> store \<Rightarrow> store" where
  "field_added a t n s1 =
     onAdd a t
       (upd_obj a (\<lambda>x. x\<lparr>message := Some t\<rparr>)
         (upd_type t (\<lambda>T. T\<lparr>tfields := AList.update n a (tfields T),
                              cached_fieldsById := None,
                              cached_fieldNames := None\<rparr>) s1))"

text \<open>
  The constructor \<^verbatim>\<open>function Type(name, options)\<close>: no fields, \<open>oneofs\<close>
  undefined, all caches \<^verbatim>\<open>null\<close>.
\<close>

definition new_Type :: Type where
  "new_Type = \<lparr>tfields = [], oneofs = None, nested = None,
                cached_fieldsById = None, cached_fieldNames = None, cached_prototype = None\<rparr>"

text \<open>The names bound in a type, over its three dictionaries.\<close>

definition member_names :: "Type \<Rightarrow> string list" where
  "member_names T =
     map fst (tfields T)
     @ map fst (case nested T of None \<Rightarrow> [] | Some ns \<Rightarrow> ns)
     @ map fst (case oneofs T of None \<Rightarrow> [] | Some os \<Rightarrow> os)"

section \<open>JavaScript operators\<close>

text \<open>Truthiness, as \<^verbatim>\<open>||\<close> and \<^verbatim>\<open>if\<close> test it.\<close>

fun truthy :: "jsval \<Rightarrow> bool" where
  "truthy JUndefined = False"
| "truthy JNull = False"
| "truthy (JBool b) = b"
| "truthy (JNum n) = (n \<noteq> 0)"
| "truthy JNaN = False"
| "truthy (JStr s) = (s \<noteq> [])"
| "truthy (JArr a) = True"
| "truthy (JObj a) = True"

text \<open>\<^verbatim>\<open>a || b\<close>: the first operand when it is truthy, else the second.\<close>

definition js_or :: "jsval \<Rightarrow> jsval \<Rightarrow> jsval" where
  "js_or a b = (if truthy a then a else b)"

text \<open>\<^verbatim>\<open>a === b\<close>: objects by reference, \<open>NaN\<close> equal to nothing.\<close>

definition strict_eq :: "jsval \<Rightarrow> jsval \<Rightarrow> bool" where
  "strict_eq a b = (a \<noteq> JNaN \<and> a = b)"

text \<open>
  Modelled from the spec: \<^verbatim>\<open>util.isObject\<close> (\<^verbatim>\<open>util.js\<close> is not among the
  sources): the value "is an object".
\<close>

fun isObject :: "jsval \<Rightarrow> bool" where
  "isObject (JArr a) = True"
| "isObject (JObj a) = True"
| "isObject v = False"

text \<open>
  \<^verbatim>\<open>a == b\<close>, the coercive comparison. The language's conversions of a string to a
  number and of an object to a primitive are parameters; the second reads the
  contents of arrays.
\<close>

record coercions =
  StringToNumber :: "string \<Rightarrow> jsval"
  ToPrimitive :: "(addr \<Rightarrow> jsval list) \<Rightarrow> jsval \<Rightarrow> jsval"

fun bool_to_number :: "jsval \<Rightarrow> jsval" where
  "bool_to_number (JBool b) = JNum (if b then 1 else 0)"
| "bool_to_number v = v"

fun loose_eq_prim :: "coercions \<Rightarrow> jsval \<Rightarrow> jsval \<Rightarrow> bool" where
  "loose_eq_prim cz (JStr x) (JStr y) = (x = y)"
| "loose_eq_prim cz (JStr x) (JNum n) = (StringToNumber cz x = JNum n)"
| "loose_eq_prim cz (JNum n) (JStr y) = (JNum n = StringToNumber cz y)"
| "loose_eq_prim cz (JNum n) (JNum k) = (n = k)"
| "loose_eq_prim cz JUndefined JUndefined = True"
| "loose_eq_prim cz JUndefined JNull = True"
| "loose_eq_prim cz JNull JUndefined = True"
| "loose_eq_prim cz JNull JNull = True"
| "loose_eq_prim cz x y = False"

definition loose_eq :: "coercions \<Rightarrow> (addr \<Rightarrow> jsval list) \<Rightarrow> jsval \<Rightarrow> jsval \<Rightarrow> bool" where
  "loose_eq cz h x y =
     (if isObject x \<and> isObject y then x = y
      else if isObject x then
        y \<noteq> JUndefined \<and> y \<noteq> JNull
          \<and> loose_eq_prim cz (bool_to_number (ToPrimitive cz h x)) (bool_to_number y)
      else if isObject y then
        x \<noteq> JUndefined \<and> x \<noteq> JNull
          \<and> loose_eq_prim cz (bool_to_number x) (bool_to_number (ToPrimitive cz h y))
      else loose_eq_prim cz (bool_to_number x) (bool_to_number y))"

section \<open>Messages and create\<close>

text \<open>
  A message instance: its own properties and the properties of the prototype object it
  was created from. \<^verbatim>\<open>message[name]\<close> reads the own property first, then the
  prototype, and is \<^verbatim>\<open>undefined\<close> otherwise: names are taken not to collide
  with what \<^verbatim>\<open>Object.prototype\<close> and the \<^verbatim>\<open>Prototype\<close> class provide.
\<close>

record Message =
  own :: "string \<rightharpoonup> jsval"
  proto :: "string \<rightharpoonup> jsval"

definition msg_get :: "Message \<Rightarrow> string \<Rightarrow> jsval" where
  "msg_get m n =
     (case own m n of
        Some v \<Rightarrow> v
      | None \<Rightarrow> (case proto m n of Some v \<Rightarrow> v | None \<Rightarrow> JUndefined))"

definition prop_get :: "(string \<rightharpoonup> jsval) \<Rightarrow> string \<Rightarrow> jsval" where
  "prop_get p n = (case p n of Some v \<Rightarrow> v | None \<Rightarrow> JUndefined)"

text \<open>
  The first loop of \<^verbatim>\<open>create\<close>: the default template receives the default of
  every field whose default is not an object.
\<close>

fun prototype_loop ::
  "(addr \<Rightarrow> Reflected) \<Rightarrow> (string \<times> addr) list \<Rightarrow> string list \<Rightarrow> (string \<rightharpoonup> jsval)
     \<Rightarrow> error + (string \<rightharpoonup> jsval)" where
  "prototype_loop os fs [] pr = Inr pr"
| "prototype_loop os fs (n # ns) pr =
     (case map_of fs n of
        None \<Rightarrow> Inl TypeError
      | Some f \<Rightarrow>
          (let v = defaultValue (os f)
           in prototype_loop os fs ns (if \<not> isObject v then pr(n \<mapsto> v) else pr)))"

text \<open>
  The second loop of \<^verbatim>\<open>create\<close>:
  \<^verbatim>\<open>value = properties[name] || field.defaultValue\<close>, stored on the instance when
  \<^verbatim>\<open>field.required || field.repeated || field.map || value !== field.defaultValue
  || util.isObject(value)\<close>.
\<close>

fun populate_loop ::
  "(addr \<Rightarrow> Reflected) \<Rightarrow> (string \<times> addr) list \<Rightarrow> (string \<rightharpoonup> jsval) \<Rightarrow> string list
     \<Rightarrow> (string \<rightharpoonup> jsval) \<Rightarrow> error + (string \<rightharpoonup> jsval)" where
  "populate_loop os fs props [] ow = Inr ow"
| "populate_loop os fs props (n # ns) ow =
     (case map_of fs n of
        None \<Rightarrow> Inl TypeError
      | Some f \<Rightarrow>
          (let field = os f;
               v = js_or (prop_get props n) (defaultValue field)
           in populate_loop os fs props ns
                (if required field \<or> repeated field \<or> map_rule field
                    \<or> \<not> strict_eq v (defaultValue field) \<or> isObject v
                 then ow(n \<mapsto> v) else ow)))"

text \<open>
  \<^verbatim>\<open>TypePrototype.create\<close> without a constructor. \<^verbatim>\<open>resolveExtends\<close> is taken
  with no extension pending, where it changes nothing. The template is built on the
  first call only and cached.
\<close>

definition Type_create ::
  "store \<Rightarrow> addr \<Rightarrow> (string \<rightharpoonup> jsval) option \<Rightarrow> (error + Message) \<times> store" where
  "Type_create s t properties =
     (let props = (case properties of None \<Rightarrow> Map.empty | Some p \<Rightarrow> p);
          (fieldNames, s1) = Type_fieldNames s t;
          T = types s1 t
      in case (case cached_prototype T of
                 Some pr \<Rightarrow> Inr pr
               | None \<Rightarrow> prototype_loop (objs s1) (tfields T) fieldNames Map.empty) of
           Inl e \<Rightarrow> (Inl e, s1)
         | Inr prototype \<Rightarrow>
             (let s2 = upd_type t (\<lambda>T. T\<lparr>cached_prototype := Some prototype\<rparr>) s1
              in case populate_loop (objs s2) (tfields T) props fieldNames Map.empty of
                   Inl e \<Rightarrow> (Inl e, s2)
                 | Inr ow \<Rightarrow> (Inr \<lparr>own = ow, proto = prototype\<rparr>, s2)))"

section \<open>encode\<close>

text \<open>
  The loop of \<^verbatim>\<open>TypePrototype.encode\<close>. \<^verbatim>\<open>field.encode(value, writer)\<close> is
  the parameter \<open>fenc\<close>, which takes the writer to the writer after the call or throws
  (\<^verbatim>\<open>field.js\<close> and \<^verbatim>\<open>writer.js\<close> are not among the sources).
\<close>

fun encode_loop ::
  "(Reflected \<Rightarrow> jsval \<Rightarrow> 'w \<Rightarrow> error + 'w) \<Rightarrow> coercions \<Rightarrow> (addr \<Rightarrow> jsval list)
     \<Rightarrow> (addr \<Rightarrow> Reflected) \<Rightarrow> (string \<times> addr) list \<Rightarrow> Message \<Rightarrow> string list \<Rightarrow> 'w
     \<Rightarrow> error + 'w" where
  "encode_loop fenc cz h os fs m [] w = Inr w"
| "encode_loop fenc cz h os fs m (n # ns) w =
     (case map_of fs n of
        None \<Rightarrow> Inl TypeError
      | Some f \<Rightarrow>
          (let field = os f; v = msg_get m n
           in if required field \<or> \<not> loose_eq cz h v (defaultValue field)
              then (case fenc field v w of
                      Inl e \<Rightarrow> Inl e
                    | Inr w' \<Rightarrow> encode_loop fenc cz h os fs m ns w')
              else encode_loop fenc cz h os fs m ns w))"

text \<open>
  \<^verbatim>\<open>TypePrototype.encode\<close>, called with a writer. The field encoder may read the
  store (the elements of an array).
\<close>

definition Type_encode ::
  "(store \<Rightarrow> Reflected \<Rightarrow> jsval \<Rightarrow> 'w \<Rightarrow> error + 'w) \<Rightarrow> coercions \<Rightarrow> store \<Rightarrow> addr
     \<Rightarrow> Message \<Rightarrow> 'w \<Rightarrow> (error + 'w) \<times> store" where
  "Type_encode fenc cz s t m writer =
     (let (fieldNames, s1) = Type_fieldNames s t
      in (encode_loop (fenc s1) cz (arrays s1) (objs s1) (tfields (types s1 t)) m
            fieldNames writer, s1))"

section \<open>The reader\<close>

text \<open>
  Modelled from the spec: the Reader (\<^verbatim>\<open>reader.js\<close> is not among the sources), a
  "cursor over an immutable byte sequence with position and total length". Bytes
  are natural numbers below 256.
\<close>

record Reader =
  buf :: "nat list"
  pos :: nat

text \<open>
  Modelled from the spec: a varint, the "variable-length base-128 encoding of an
  unsigned integer", least significant group first, the high bit set on every byte but
  the last. The result is the value and the number of bytes read, or \<open>None\<close> when the
  bytes end before the varint does.
\<close>

fun read_varint :: "nat list \<Rightarrow> (nat \<times> nat) option" where
  "read_varint [] = None"
| "read_varint (b # bs) =
     (if b < 128 then Some (b, 1)
      else (case read_varint bs of
              None \<Rightarrow> None
            | Some (v, k) \<Rightarrow> Some (b mod 128 + 128 * v, Suc k)))"

text \<open>
  Modelled from the spec: \<^verbatim>\<open>reader.uint32()\<close>, the varint at the cursor. "Reading
  past length fails with a BufferUnderrunError."
\<close>

definition Reader_uint32 :: "Reader \<Rightarrow> error + (nat \<times> Reader)" where
  "Reader_uint32 r =
     (case read_varint (drop (pos r) (buf r)) of
        None \<Rightarrow> Inl BufferUnderrun
      | Some (v, k) \<Rightarrow> Inr (v, r\<lparr>pos := pos r + k\<rparr>))"

record Tag =
  tag_id :: nat
  wireType :: nat

text \<open>
  Modelled from the spec: \<^verbatim>\<open>reader.tag()\<close> "reads one varint and splits it into
  (field id = value right-shifted 3 bits, wire-type = value masked to its low 3 bits)"
  and "advances position past the varint's encoded bytes".
\<close>

definition Reader_tag :: "Reader \<Rightarrow> error + (Tag \<times> Reader)" where
  "Reader_tag r =
     (case Reader_uint32 r of
        Inl e \<Rightarrow> Inl e
      | Inr (v, r') \<Rightarrow> Inr (\<lparr>tag_id = v div 8, wireType = v mod 8\<rparr>, r'))"

text \<open>
  Modelled from the spec: \<^verbatim>\<open>reader.skip(n?)\<close>: "with an explicit byte count,
  advances position by n; with none, advances past exactly one varint". "Reading past
  length fails with a BufferUnderrunError."
\<close>

definition Reader_skip :: "nat option \<Rightarrow> Reader \<Rightarrow> error + Reader" where
  "Reader_skip n r =
     (case n of
        Some k \<Rightarrow>
          if length (buf r) < pos r + k then Inl BufferUnderrun
          else Inr (r\<lparr>pos := pos r + k\<rparr>)
      | None \<Rightarrow>
          (case read_varint (drop (pos r) (buf r)) of
             None \<Rightarrow> Inl BufferUnderrun
           | Some (v, k) \<Rightarrow> Inr (r\<lparr>pos := pos r + k\<rparr>)))"

section \<open>decode\<close>

text \<open>
  What \<^verbatim>\<open>field.decode(reader, wireType)\<close> returns: one value, or (packed encoding)
  a new array, given by its elements. The field decoder is the parameter \<open>fdec\<close>
  (\<^verbatim>\<open>field.js\<close> is not among the sources): it reads forward from the cursor and
  returns the value with the number of bytes it consumed, or throws.
\<close>

datatype decoded = Single jsval | Elements "jsval list"

text \<open>\<^verbatim>\<open>util.isArray(value) ? push.apply(array, value) : array.push(value)\<close>: what is appended.\<close>

fun pushed :: "(addr \<Rightarrow> jsval list) \<Rightarrow> decoded \<Rightarrow> jsval list" where
  "pushed h (Elements vs) = vs"
| "pushed h (Single (JArr a)) = h a"
| "pushed h (Single v) = [v]"

definition new_array :: "jsval list \<Rightarrow> store \<Rightarrow> addr \<times> store" where
  "new_array vs s =
     (next_array s, s\<lparr>arrays := (arrays s)(next_array s := vs), next_array := Suc (next_array s)\<rparr>)"

text \<open>
  The branch of the loop body for a known field. For a repeated field
  \<^verbatim>\<open>var array = message[name] || (message[name] = [])\<close>: the array the message
  already shows under the name is extended in place; a fresh one is stored only when
  the slot is falsy. Pushing onto a truthy value that is not an array is a TypeError.
  Otherwise \<^verbatim>\<open>message[name] = value\<close>.
\<close>

definition decode_known ::
  "store \<Rightarrow> Reflected \<Rightarrow> decoded \<Rightarrow> Message \<Rightarrow> (error + Message) \<times> store" where
  "decode_known s field v m =
     (let n = name field
      in if repeated field then
           (case msg_get m n of
              JArr a \<Rightarrow>
                (Inr m, s\<lparr>arrays := (arrays s)(a := arrays s a @ pushed (arrays s) v)\<rparr>)
            | x \<Rightarrow>
                if truthy x then (Inl TypeError, s)
                else (let (a, s1) = new_array [] s
                      in (Inr (m\<lparr>own := (own m)(n \<mapsto> JArr a)\<rparr>),
                          s1\<lparr>arrays := (arrays s1)(a := arrays s1 a @ pushed (arrays s1) v)\<rparr>)))
         else
           (case v of
              Single x \<Rightarrow> (Inr (m\<lparr>own := (own m)(n \<mapsto> x)\<rparr>), s)
            | Elements vs \<Rightarrow>
                (let (a, s1) = new_array vs s
                 in (Inr (m\<lparr>own := (own m)(n \<mapsto> JArr a)\<rparr>), s1))))"

text \<open>The \<^verbatim>\<open>switch (tag.wireType)\<close> for a field id that is not in \<^verbatim>\<open>fieldsById\<close>.\<close>

definition skip_unknown :: "Tag \<Rightarrow> Reader \<Rightarrow> error + Reader" where
  "skip_unknown tag r =
     (if wireType tag = 0 then Reader_skip None r
      else if wireType tag = 1 then Reader_skip (Some 8) r
      else if wireType tag = 2 then
        (case Reader_uint32 r of
           Inl e \<Rightarrow> Inl e
         | Inr (k, r') \<Rightarrow> Reader_skip (Some k) r')
      else if wireType tag = 5 then Reader_skip (Some 4) r
      else Inl (UnsupportedWireType (tag_id tag) (wireType tag)))"

text \<open>One turn of the \<^verbatim>\<open>while (reader.pos < limit)\<close> loop.\<close>

definition decode_step ::
  "(Reflected \<Rightarrow> Reader \<Rightarrow> nat \<Rightarrow> error + (decoded \<times> nat)) \<Rightarrow> (nat \<rightharpoonup> addr) \<Rightarrow> store
     \<Rightarrow> Reader \<Rightarrow> Message \<Rightarrow> (error + (Reader \<times> Message)) \<times> store" where
  "decode_step fdec byId s r m =
     (case Reader_tag r of
        Inl e \<Rightarrow> (Inl e, s)
      | Inr (tag, r1) \<Rightarrow>
          (case byId (tag_id tag) of
             Some f \<Rightarrow>
               (case fdec (objs s f) r1 (wireType tag) of
                  Inl e \<Rightarrow> (Inl e, s)
                | Inr (v, k) \<Rightarrow>
                    (case decode_known s (objs s f) v m of
                       (Inl e, s') \<Rightarrow> (Inl e, s')
                     | (Inr m', s') \<Rightarrow> (Inr (r1\<lparr>pos := pos r1 + k\<rparr>, m'), s')))
           | None \<Rightarrow>
               (case skip_unknown tag r1 of
                  Inl e \<Rightarrow> (Inl e, s)
                | Inr r2 \<Rightarrow> (Inr (r2, m), s))))"

lemma read_varint_pos: "read_varint bs = Some (v, k) \<Longrightarrow> 0 < k"
  by (induction bs arbitrary: v k) (auto split: if_splits option.splits)

lemma Reader_uint32_pos: "Reader_uint32 r = Inr (v, r') \<Longrightarrow> pos r < pos r' \<and> buf r' = buf r"
  by (auto simp: Reader_uint32_def split: option.splits dest: read_varint_pos)

lemma Reader_tag_pos: "Reader_tag r = Inr (tag, r') \<Longrightarrow> pos r < pos r' \<and> buf r' = buf r"
  by (auto simp: Reader_tag_def split: sum.splits dest: Reader_uint32_pos)

lemma Reader_skip_pos: "Reader_skip n r = Inr r' \<Longrightarrow> pos r \<le> pos r' \<and> buf r' = buf r"
  by (auto simp: Reader_skip_def split: option.splits if_splits)

lemma skip_unknown_pos: "skip_unknown tag r = Inr r' \<Longrightarrow> pos r \<le> pos r' \<and> buf r' = buf r"
  by (fastforce simp: skip_unknown_def split: if_splits sum.splits
        dest: Reader_skip_pos Reader_uint32_pos)

lemma decode_step_pos:
  "decode_step fdec byId s r m = (Inr (r', m'), s') \<Longrightarrow> pos r < pos r' \<and> buf r' = buf r"
  by (fastforce simp: decode_step_def split: sum.splits option.splits prod.splits
        dest: Reader_tag_pos skip_unknown_pos)

text \<open>
  The loop: it runs while the cursor is below the limit and stops at the first error.
  Every turn reads a tag, so the cursor moves forward and the loop ends.
\<close>

function decode_loop ::
  "(Reflected \<Rightarrow> Reader \<Rightarrow> nat \<Rightarrow> error + (decoded \<times> nat)) \<Rightarrow> (nat \<rightharpoonup> addr) \<Rightarrow> nat
     \<Rightarrow> store \<Rightarrow> Reader \<Rightarrow> Message \<Rightarrow> (error + (Reader \<times> Message)) \<times> store" where
  "decode_loop fdec byId limit s r m =
     (if pos r < limit then
        (case decode_step fdec byId s r m of
           (Inl e, s') \<Rightarrow> (Inl e, s')
         | (Inr (r', m'), s') \<Rightarrow> decode_loop fdec byId limit s' r' m')
      else (Inr (r, m), s))"
  by pat_completeness auto
termination
  by (relation "measure (\<lambda>(fdec, byId, limit, s, r, m). limit - pos r)")
     (auto dest!: decode_step_pos [OF sym])

declare decode_loop.simps [simp del]

text \<open>
  \<^verbatim>\<open>TypePrototype.decode\<close> on a reader, without a constructor. \<open>len\<close> is the
  optional \<^verbatim>\<open>length\<close>, and
  \<^verbatim>\<open>limit = length === undefined ? reader.len : reader.pos + length\<close>. The message starts as \<^verbatim>\<open>this.create({})\<close>; after the loop
  the cursor must stand on the limit.
\<close>

definition decode_limit :: "Reader \<Rightarrow> nat option \<Rightarrow> nat" where
  "decode_limit reader len = (case len of None \<Rightarrow> length (buf reader) | Some l \<Rightarrow> pos reader + l)"

definition Type_decode ::
  "(Reflected \<Rightarrow> Reader \<Rightarrow> nat \<Rightarrow> error + (decoded \<times> nat)) \<Rightarrow> store \<Rightarrow> addr \<Rightarrow> Reader
     \<Rightarrow> nat option \<Rightarrow> (error + Message) \<times> store" where
  "Type_decode fdec s t reader len =
     (let limit = decode_limit reader len
      in case Type_create s t (Some Map.empty) of
           (Inl e, s1) \<Rightarrow> (Inl e, s1)
         | (Inr msg, s1) \<Rightarrow>
             (case Type_fieldsById s1 t of
                (Inl e, s2) \<Rightarrow> (Inl e, s2)
              | (Inr byId, s2) \<Rightarrow>
                  (case decode_loop fdec byId limit s2 reader msg of
                     (Inl e, s3) \<Rightarrow> (Inl e, s3)
                   | (Inr (r', m'), s3) \<Rightarrow>
                       if pos r' \<noteq> limit then (Inl (InvalidWireFormat (pos r') limit), s3)
                       else (Inr m', s3))))"

section \<open>Representation invariants\<close>

text \<open>The ids of the fields of a type, in the order of the dictionary.\<close>

definition field_ids :: "(addr \<Rightarrow> Reflected) \<Rightarrow> (string \<times> addr) list \<Rightarrow> nat list" where
  "field_ids os fs = map (\<lambda>(n, f). field_id (os f)) fs"

text \<open>
  The cached name list, when there is one, is the list of the keys: every add and
  remove of a field resets the cache, and the getter fills it from the keys.
\<close>

definition names_coherent :: "Type \<Rightarrow> bool" where
  "names_coherent T =
     (case cached_fieldNames T of None \<Rightarrow> True | Some ns \<Rightarrow> ns = map fst (tfields T))"

text \<open>
  What \<^verbatim>\<open>create\<close> stores on the instance under a name and what the template
  holds under it, written without the loops: the characterisation the loops are
  compared with.
\<close>

definition materialized ::
  "(addr \<Rightarrow> Reflected) \<Rightarrow> (string \<times> addr) list \<Rightarrow> (string \<rightharpoonup> jsval) \<Rightarrow> string \<Rightarrow> jsval option" where
  "materialized os fs props n =
     (case map_of fs n of
        None \<Rightarrow> None
      | Some f \<Rightarrow>
          (let field = os f; v = js_or (prop_get props n) (defaultValue field)
           in if required field \<or> repeated field \<or> map_rule field
                 \<or> \<not> strict_eq v (defaultValue field) \<or> isObject v
              then Some v else None))"

definition template_of ::
  "(addr \<Rightarrow> Reflected) \<Rightarrow> (string \<times> addr) list \<Rightarrow> string \<Rightarrow> jsval option" where
  "template_of os fs n =
     (case map_of fs n of
        None \<Rightarrow> None
      | Some f \<Rightarrow> if isObject (defaultValue (os f)) then None else Some (defaultValue (os f)))"


text \<open>
  The rule of \<^verbatim>\<open>encode\<close> in the words of the specification: a field is written
  when "it is required OR its current value is unequal to the field's default under
  loose/coercive equality".
\<close>

definition must_write :: "coercions \<Rightarrow> (addr \<Rightarrow> jsval list) \<Rightarrow> Reflected \<Rightarrow> jsval \<Rightarrow> bool" where
  "must_write cz h field v = (required field \<or> \<not> loose_eq cz h v (defaultValue field))"

text \<open>The key of every field is the name of the field object, as \<open>add\<close> stores it.\<close>

definition keyed_by_name :: "(addr \<Rightarrow> Reflected) \<Rightarrow> (string \<times> addr) list \<Rightarrow> bool" where
  "keyed_by_name os fs = list_all (\<lambda>(n, f). name (os f) = n) fs"

text \<open>
  Ownership: a field object bound in the \<open>fields\<close> of a type has that type as its
  parent and is bound under its own name; this holds of new types and is kept by
  \<open>add\<close> and \<open>remove\<close>. The owners of an object are the types that bind it.
\<close>

definition owned_inv :: "store \<Rightarrow> bool" where
  "owned_inv s =
     (\<forall>t n f. map_of (tfields (types s t)) n = Some f
        \<longrightarrow> parent (objs s f) = Some t \<and> name (objs s f) = n)"

definition owners :: "store \<Rightarrow> addr \<Rightarrow> addr set" where
  "owners s a = {t. \<exists>n. map_of (tfields (types s t)) n = Some a}"

section \<open>Round trip: what is assumed of the field codec\<close>

text \<open>
  A field codec that round-trips on the values it accepts: the encoder appends a chunk
  that depends on the field and the value only; read back from its first byte, the
  chunk yields the tag of the field and then the value, and ends where the chunk ends.
\<close>

definition codec_ok ::
  "(store \<Rightarrow> Reflected \<Rightarrow> jsval \<Rightarrow> nat list \<Rightarrow> error + nat list)
     \<Rightarrow> (Reflected \<Rightarrow> Reader \<Rightarrow> nat \<Rightarrow> error + (decoded \<times> nat))
     \<Rightarrow> (Reflected \<Rightarrow> jsval \<Rightarrow> nat list) \<Rightarrow> (Reflected \<Rightarrow> jsval \<Rightarrow> bool) \<Rightarrow> bool" where
  "codec_ok fenc fdec chunk ok =
     (\<forall>F v. ok F v \<longrightarrow>
        (\<forall>s w. fenc s F v w = Inr (w @ chunk F v))
        \<and> (\<forall>r rest. drop (pos r) (buf r) = chunk F v @ rest \<longrightarrow>
              (\<exists>wt j k. Reader_tag r = Inr (\<lparr>tag_id = field_id F, wireType = wt\<rparr>, r\<lparr>pos := pos r + j\<rparr>)
                 \<and> fdec F (r\<lparr>pos := pos r + j\<rparr>) wt = Inr (Single v, k)
                 \<and> j + k = length (chunk F v))))"

text \<open>The fields \<open>encode\<close> writes for a message, and the bytes of their chunks.\<close>

definition written ::
  "coercions \<Rightarrow> store \<Rightarrow> Message \<Rightarrow> (string \<times> addr) list \<Rightarrow> (string \<times> addr) list" where
  "written cz s m fs = filter (\<lambda>(n, f). must_write cz (arrays s) (objs s f) (msg_get m n)) fs"

definition chunks ::
  "(Reflected \<Rightarrow> jsval \<Rightarrow> nat list) \<Rightarrow> store \<Rightarrow> Message \<Rightarrow> (string \<times> addr) list \<Rightarrow> nat list" where
  "chunks chunk s m ps = concat (map (\<lambda>(n, f). chunk (objs s f) (msg_get m n)) ps)"

text \<open>A dictionary after the values of the listed names have been stored in it.\<close>

definition put_all ::
  "(string \<Rightarrow> jsval) \<Rightarrow> (string \<times> addr) list \<Rightarrow> (string \<rightharpoonup> jsval) \<Rightarrow> (string \<rightharpoonup> jsval)" where
  "put_all val ps ow = (\<lambda>n. if n \<in> fst ` set ps then Some (val n) else ow n)"

section \<open>A sample schema and a sample field codec\<close>

text \<open>
  Modelled from the spec: a Field as the data model describes it ("name, numeric id,
  rule, default value, owning Type"), freshly constructed: no parent, no message.
\<close>

definition new_Field :: "string \<Rightarrow> nat \<Rightarrow> bool \<Rightarrow> bool \<Rightarrow> jsval \<Rightarrow> Reflected" where
  "new_Field n i req rep d =
     \<lparr>kind = KField, name = n, parent = None, field_id = i, required = req,
      repeated = rep, map_rule = False, defaultValue = d, message = None\<rparr>"

text \<open>
  Modelled from the spec: a OneOf, "a named group of mutually exclusive field names";
  only its name and parent matter to a type.
\<close>

definition new_OneOf :: "string \<Rightarrow> Reflected" where
  "new_OneOf n =
     \<lparr>kind = KOneOf, name = n, parent = None, field_id = 0, required = False,
      repeated = False, map_rule = False, defaultValue = JUndefined, message = None\<rparr>"

text \<open>
  The objects of the examples: the two fields of the spec's end-to-end schema (a
  required \<open>id\<close> and an optional \<open>name\<close>), a repeated field \<open>items\<close> whose default is
  the array at address 0, an optional \<open>count\<close> with default 5 that reuses id 1, a
  second field called \<open>id\<close>, and a one-of.
\<close>

definition sample_objs :: "addr \<Rightarrow> Reflected" where
  "sample_objs =
     (\<lambda>_. new_OneOf ''choice'')
       (0 := new_Field ''id'' 1 True False (JNum 0),
        1 := new_Field ''name'' 2 False False (JStr ''''),
        2 := new_Field ''items'' 3 False True (JArr 0),
        3 := new_Field ''count'' 1 False False (JNum 5),
        4 := new_Field ''id'' 7 False False (JNum 0))"

text \<open>
  The store of the examples: every type is new; array 0 is the empty default of
  \<open>items\<close>, array 1 is a caller's array holding 7.
\<close>

definition sample_store :: store where
  "sample_store =
     \<lparr>types = (\<lambda>_. new_Type), objs = sample_objs,
      arrays = (\<lambda>_. [])(1 := [JNum 7]), next_array = 2\<rparr>"

text \<open>The result of a call that did not throw.\<close>

definition returned :: "error + 'a \<Rightarrow> 'a" where
  "returned x = (case x of Inr y \<Rightarrow> y)"

text \<open>
  Conversions for the examples, right on what the examples compare across types: the
  empty string is the number 0, an empty array is the empty string.
\<close>

definition sample_coercions :: coercions where
  "sample_coercions =
     \<lparr>StringToNumber = (\<lambda>x. if x = [] then JNum 0 else JNaN),
      ToPrimitive = (\<lambda>h v. case v of JArr a \<Rightarrow> (if h a = [] then JStr [] else JNaN) | _ \<Rightarrow> JNaN)\<rparr>"

text \<open>
  Modelled from the spec: writing a varint, the base-128 encoding that
  \<open>read_varint\<close> reads back.
\<close>

fun write_varint :: "nat \<Rightarrow> nat list" where
  "write_varint n = (if n < 128 then [n] else (128 + n mod 128) # write_varint (n div 128))"

declare write_varint.simps [simp del]

text \<open>
  Modelled from the spec: \<^verbatim>\<open>field.encode\<close> for the scalar kinds of the examples,
  after the wire format of the spec: "each field on the wire is varint(tag) || payload,
  where tag = (fieldId << 3) | wireType; wireType 0 = varint payload, 2 =
  varint-length-prefixed byte run". A non-negative number is a varint, a string a byte
  run, an array the sequence of its elements, each with the tag.
\<close>

fun sample_encode_value :: "nat \<Rightarrow> jsval \<Rightarrow> (nat list) option" where
  "sample_encode_value i (JNum n) =
     (if 0 \<le> n then Some (write_varint (8 * i) @ write_varint (nat n)) else None)"
| "sample_encode_value i (JStr x) =
     Some (write_varint (8 * i + 2) @ write_varint (length x) @ map of_char x)"
| "sample_encode_value i v = None"

text \<open>
  Modelled from the spec: the elements of a repeated field, unpacked: one tagged value
  after the other.
\<close>

fun sample_encode_values :: "nat \<Rightarrow> jsval list \<Rightarrow> (nat list) option" where
  "sample_encode_values i [] = Some []"
| "sample_encode_values i (v # vs) =
     (case sample_encode_value i v of
        None \<Rightarrow> None
      | Some bs \<Rightarrow> (case sample_encode_values i vs of None \<Rightarrow> None | Some cs \<Rightarrow> Some (bs @ cs)))"

text \<open>
  Modelled from the spec: \<^verbatim>\<open>field.encode(value, writer)\<close> on a writer that is the
  list of the bytes written so far; a value of another kind is refused.
\<close>

definition sample_encode :: "store \<Rightarrow> Reflected \<Rightarrow> jsval \<Rightarrow> nat list \<Rightarrow> error + nat list" where
  "sample_encode s field v w =
     (case (case v of
              JArr a \<Rightarrow> sample_encode_values (field_id field) (arrays s a)
            | _ \<Rightarrow> sample_encode_value (field_id field) v) of
        None \<Rightarrow> Inl CodecError
      | Some bs \<Rightarrow> Inr (w @ bs))"

text \<open>
  The chunk the sample encoder appends for a value, and the values taken for the round
  trip of the sample codec: the non-negative numbers.
\<close>

definition sample_chunk :: "Reflected \<Rightarrow> jsval \<Rightarrow> nat list" where
  "sample_chunk F v = (case sample_encode_value (field_id F) v of Some bs \<Rightarrow> bs | None \<Rightarrow> [])"

fun sample_ok :: "Reflected \<Rightarrow> jsval \<Rightarrow> bool" where
  "sample_ok F (JNum n) = (0 \<le> n)"
| "sample_ok F v = False"

text \<open>
  Modelled from the spec: \<^verbatim>\<open>field.decode\<close> for the same kinds: a varint for wire
  type 0, a byte run read as a string for wire type 2.
\<close>

definition sample_decode :: "Reflected \<Rightarrow> Reader \<Rightarrow> nat \<Rightarrow> error + (decoded \<times> nat)" where
  "sample_decode field r wt =
     (if wt = 0 then
        (case read_varint (drop (pos r) (buf r)) of
           None \<Rightarrow> Inl BufferUnderrun
         | Some (v, k) \<Rightarrow> Inr (Single (JNum (int v)), k))
      else if wt = 2 then
        (case read_varint (drop (pos r) (buf r)) of
           None \<Rightarrow> Inl BufferUnderrun
         | Some (l, k) \<Rightarrow>
             if length (buf r) < pos r + k + l then Inl BufferUnderrun
             else Inr (Single (JStr (map char_of (take l (drop (pos r + k) (buf r))))), k + l))
      else Inl CodecError)"

text \<open>
  A field encoder that only records the call: the writer is the list of the names and
  values \<^verbatim>\<open>field.encode\<close> was called with.
\<close>

definition recording_encode ::
  "store \<Rightarrow> Reflected \<Rightarrow> jsval \<Rightarrow> (string \<times> jsval) list \<Rightarrow> error + (string \<times> jsval) list" where
  "recording_encode s field v w = Inr (w @ [(name field, v)])"

text \<open>
  Type 0 with the schema of the spec's end-to-end example: \<open>id\<close> (required, id 1)
  and \<open>name\<close> (optional, id 2).
\<close>

definition example_store :: store where
  "example_store = returned (Type_add (returned (Type_add sample_store 0 0)) 0 1)"

text \<open>The example schema after its field \<open>name\<close> has been added to type 1.\<close>

definition moved_store :: store where
  "moved_store = returned (Type_add example_store 1 1)"

text \<open>Type 0 with the single optional field \<open>count\<close>, whose default is 5.\<close>

definition count_store :: store where
  "count_store = returned (Type_add sample_store 0 3)"

text \<open>
  Type 0 after a first \<open>create\<close> on the empty type, with \<open>count\<close> added afterwards.
\<close>

definition late_store :: store where
  "late_store = returned (Type_add (snd (Type_create sample_store 0 None)) 0 3)"

text \<open>Type 0 with \<open>id\<close> and \<open>count\<close>, which both carry the id 1.\<close>

definition dup_store :: store where
  "dup_store = returned (Type_add (returned (Type_add sample_store 0 0)) 0 3)"

text \<open>
  The same type after a read of \<open>fieldsById\<close> has thrown, then with \<open>count\<close> removed,
  then with \<open>name\<close> added.
\<close>

definition stale_store :: store where
  "stale_store = snd (Type_fieldsById dup_store 0)"

definition removed_store :: store where
  "removed_store = returned (Type_remove stale_store 0 3)"

definition added_store :: store where
  "added_store = returned (Type_add removed_store 0 1)"

text \<open>
  Two round trips, one after the other, through type 0 with the single repeated field
  \<open>items\<close>: each creates the message \<^verbatim>\<open>create({items: [7]})\<close> from the caller's
  array at address 1, encodes it and decodes the bytes.
\<close>

definition items_store :: store where
  "items_store = returned (Type_add sample_store 0 2)"

definition round_trip :: "store \<Rightarrow> (Message \<times> nat list \<times> Message) \<times> store" where
  "round_trip s =
     (let (c, s1) = Type_create s 0 (Some [''items'' \<mapsto> JArr 1]);
          (e, s2) = Type_encode sample_encode sample_coercions s1 0 (returned c) [];
          (d, s3) = Type_decode sample_decode s2 0 \<lparr>buf = returned e, pos = 0\<rparr> None
      in ((returned c, returned e, returned d), s3))"

definition rt_first :: "(Message \<times> nat list \<times> Message) \<times> store" where
  "rt_first = round_trip items_store"

definition rt_second :: "(Message \<times> nat list \<times> Message) \<times> store" where
  "rt_second = round_trip (snd rt_first)"

text \<open>The elements a message shows under a name, when the value there is an array.\<close>

definition shown_elements :: "store \<Rightarrow> Message \<Rightarrow> string \<Rightarrow> jsval list" where
  "shown_elements s m n = (case msg_get m n of JArr a \<Rightarrow> arrays s a | _ \<Rightarrow> [])"

lemma returned_Inr: "returned (Inr y) = y"
  by (simp add: returned_def)

lemmas model_defs =
  Type_add_def Type_remove_def Namespace_add_def Namespace_remove_def Type_exists_def
  Type_fieldNames_def Type_fieldsById_def Type_create_def Type_encode_def Type_decode_def decode_limit_def
  onAdd_def upd_obj_def upd_type_def member_names_def msg_get_def prop_get_def
  strict_eq_def loose_eq_def js_or_def Let_def

lemmas sample_defs =
  sample_store_def sample_objs_def new_Field_def new_OneOf_def new_Type_def returned_def
  sample_coercions_def count_store_def dup_store_def example_store_def

section \<open>Name uniqueness\<close>

lemma exists_member_names:
  "Type_exists s t n = (n \<in> set (member_names (types s t)))"
  by (cases "nested (types s t)"; cases "oneofs (types s t)")
     (auto simp: Type_exists_def member_names_def Let_def map_of_eq_None_iff)

lemma Type_remove_other:
  "Type_remove s p a = Inr s1 \<Longrightarrow> p \<noteq> t \<Longrightarrow> types s1 t = types s t"
  by (auto simp: Type_remove_def Namespace_remove_def upd_obj_def upd_type_def Let_def
        split: if_splits option.splits)

lemma Type_remove_absent:
  "kind (objs s a) = KField \<Longrightarrow> map_of (tfields (types s t)) (name (objs s a)) = None
     \<Longrightarrow> Type_remove s t a = Inl NotMember"
  by (auto simp: Type_remove_def)

lemma Type_add_field_pre:
  assumes "Type_add s t a = Inr s'" "kind (objs s a) = KField"
  shows "\<exists>s1. types s1 t = types s t \<and> s' = field_added a t (name (objs s a)) s1
     \<and> (case parent (objs s a) of
          None \<Rightarrow> s1 = s
        | Some p \<Rightarrow> p \<noteq> t \<and> Type_remove s p a = Inr s1)"
proof -
  from assms have ne: "\<not> Type_exists s t (name (objs s a))"
    by (auto simp: Type_add_def Let_def split: if_splits)
  then have absent: "map_of (tfields (types s t)) (name (objs s a)) = None"
    by (simp add: Type_exists_def Let_def)
  show ?thesis
  proof (cases "parent (objs s a)")
    case None
    with assms ne show ?thesis by (auto simp: Type_add_def Let_def field_added_def)
  next
    case (Some p)
    with assms ne obtain s1 where r: "Type_remove s p a = Inr s1"
      and s': "s' = field_added a t (name (objs s a)) s1"
      by (auto simp: Type_add_def Let_def field_added_def split: sum.splits)
    have "p \<noteq> t" using r Type_remove_absent[OF assms(2) absent] by auto
    with r s' Some show ?thesis using Type_remove_other[OF r] by auto
  qed
qed

lemma Type_add_member_names:
  assumes "Type_add s t a = Inr s'"
  shows "set (member_names (types s' t)) = insert (name (objs s a)) (set (member_names (types s t)))
     \<and> (distinct (member_names (types s t)) \<longrightarrow> distinct (member_names (types s' t)))"
proof -
  let ?n = "name (objs s a)"
  from assms have ne: "\<not> Type_exists s t ?n"
    by (auto simp: Type_add_def Let_def split: if_splits)
  then have notin: "?n \<notin> set (member_names (types s t))"
    by (simp add: exists_member_names)
  show ?thesis
  proof (cases "kind (objs s a)")
    case KField
    from Type_add_field_pre[OF assms KField] obtain s1 where
      "types s1 t = types s t" and "s' = field_added a t ?n s1" by blast
    with notin show ?thesis
      by (auto simp: member_names_def field_added_def onAdd_def upd_obj_def upd_type_def update_keys)
  next
    case KOneOf
    with assms ne have "s' = onAdd a t
             (upd_type t (\<lambda>T. T\<lparr>oneofs :=
                Some (AList.update ?n a (case oneofs T of None \<Rightarrow> [] | Some os \<Rightarrow> os))\<rparr>) s)"
      by (auto simp: Type_add_def Let_def)
    with notin show ?thesis
      by (auto simp: member_names_def onAdd_def upd_obj_def upd_type_def update_keys
            split: option.splits)
  next
    case KNested
    with assms ne have "s' = onAdd a t
                (upd_type t (\<lambda>T. T\<lparr>nested :=
                   Some (AList.update ?n a (case nested T of None \<Rightarrow> [] | Some ns \<Rightarrow> ns))\<rparr>) s)"
      by (auto simp: Type_add_def Namespace_add_def Let_def)
    with notin show ?thesis
      by (auto simp: member_names_def onAdd_def upd_obj_def upd_type_def update_keys
            split: option.splits)
  qed
qed

text \<open>
  C8. Whenever the name of the object is already bound in the type, among its fields,
  its nested children or its one-ofs, \<open>add\<close> fails with the duplicate-name error. So a
  successful add binds a new name, and the names of a type stay pairwise distinct.
\<close>

theorem add_duplicate_name:
  "(name (objs s a) \<in> set (member_names (types s t))
      \<longrightarrow> Type_add s t a = Inl (DuplicateName (name (objs s a))))
   \<and> (distinct (member_names (types s t)) \<and> Type_add s t a = Inr s'
      \<longrightarrow> distinct (member_names (types s' t)))"
  using Type_add_member_names[of s t a s']
  by (auto simp: Type_add_def Let_def exists_member_names)

theorem add_duplicate_name_witness:
  "Type_add (returned (Type_add sample_store 0 0)) 0 4 = Inl (DuplicateName ''id'')
   \<and> distinct (member_names (types (returned (Type_add sample_store 0 0)) 0))"
proof -
  let ?s1 = "returned (Type_add sample_store 0 0)"
  have ok: "Type_add sample_store 0 0 = Inr ?s1"
    by (simp add: model_defs sample_defs)
  have bound: "name (objs ?s1 4) \<in> set (member_names (types ?s1 0))"
    by (simp add: model_defs sample_defs)
  have nm: "name (objs ?s1 4) = ''id''"
    by (simp add: model_defs sample_defs)
  have d0: "distinct (member_names (types sample_store 0))"
    by (simp add: model_defs sample_defs)
  from add_duplicate_name[of ?s1 4 0] bound nm
  have "Type_add ?s1 0 4 = Inl (DuplicateName ''id'')" by simp
  moreover from add_duplicate_name[of sample_store 0 0 ?s1] d0 ok
  have "distinct (member_names (types ?s1 0))" by blast
  ultimately show ?thesis by simp
qed

section \<open>The derived views\<close>

text \<open>The loop over a suffix of the fields, as long as the ids met are new.\<close>

lemma fieldsById_loop_ok:
  assumes "distinct (map fst fs)" "set ps \<subseteq> set fs"
    "distinct (field_ids os ps)" "set (field_ids os ps) \<inter> dom acc = {}"
  shows "\<exists>m. fieldsById_loop os fs (map fst ps) acc = (None, m)
     \<and> (\<forall>(n, f) \<in> set ps. m (field_id (os f)) = Some f)
     \<and> (\<forall>i. i \<notin> set (field_ids os ps) \<longrightarrow> m i = acc i)"
  using assms
proof (induction ps arbitrary: acc)
  case Nil
  then show ?case by simp
next
  case (Cons p ps)
  obtain n f where p: "p = (n, f)" by (cases p)
  with Cons.prems have look: "map_of fs n = Some f" by simp
  let ?i = "field_id (os f)"
  from Cons.prems p have fresh: "acc ?i = None" by (auto simp: field_ids_def)
  from Cons.prems p have disj: "set (field_ids os ps) \<inter> dom (acc(?i \<mapsto> f)) = {}"
    by (auto simp: field_ids_def)
  have sub: "set ps \<subseteq> set fs" using Cons.prems by simp
  have dist: "distinct (field_ids os ps)" using Cons.prems by (simp add: field_ids_def)
  from Cons.IH[of "acc(?i \<mapsto> f)", OF Cons.prems(1) sub dist disj]
  obtain m where m: "fieldsById_loop os fs (map fst ps) (acc(?i \<mapsto> f)) = (None, m)"
      "\<forall>(n, f) \<in> set ps. m (field_id (os f)) = Some f"
      "\<forall>i. i \<notin> set (field_ids os ps) \<longrightarrow> m i = (acc(?i \<mapsto> f)) i"
    by blast
  from Cons.prems p have "?i \<notin> set (field_ids os ps)" by (auto simp: field_ids_def)
  with m have "m ?i = Some f" by simp
  with m look fresh p show ?case by (auto simp: field_ids_def Let_def)
qed

lemma fieldsById_loop_dup:
  assumes "distinct (map fst fs)" "set ps \<subseteq> set fs"
    "\<not> (distinct (field_ids os ps) \<and> set (field_ids os ps) \<inter> dom acc = {})"
  shows "\<exists>i m. fieldsById_loop os fs (map fst ps) acc = (Some (DuplicateId i), m)"
  using assms
proof (induction ps arbitrary: acc)
  case Nil
  then show ?case by (simp add: field_ids_def)
next
  case (Cons p ps)
  obtain n f where p: "p = (n, f)" by (cases p)
  with Cons.prems have look: "map_of fs n = Some f" by simp
  let ?i = "field_id (os f)"
  show ?case
  proof (cases "acc ?i = None")
    case False
    with look p show ?thesis by (auto simp: Let_def)
  next
    case True
    with Cons.prems p
    have neg: "\<not> (distinct (field_ids os ps) \<and> set (field_ids os ps) \<inter> dom (acc(?i \<mapsto> f)) = {})"
      by (auto simp: field_ids_def)
    have sub: "set ps \<subseteq> set fs" using Cons.prems by simp
    from Cons.IH[of "acc(?i \<mapsto> f)", OF Cons.prems(1) sub neg]
    obtain i m where "fieldsById_loop os fs (map fst ps) (acc(?i \<mapsto> f)) = (Some (DuplicateId i), m)"
      by blast
    with True look p show ?thesis by (auto simp: Let_def)
  qed
qed

lemma Type_fieldNames_coherent:
  "names_coherent (types s t) \<Longrightarrow>
     fst (Type_fieldNames s t) = map fst (tfields (types s t))
     \<and> types (snd (Type_fieldNames s t)) t = (types s t)\<lparr>cached_fieldNames := Some (map fst (tfields (types s t)))\<rparr>
     \<and> objs (snd (Type_fieldNames s t)) = objs s
     \<and> arrays (snd (Type_fieldNames s t)) = arrays s"
  by (auto simp: Type_fieldNames_def names_coherent_def Let_def upd_type_def split: option.splits)

lemma Type_fieldsById_fresh:
  assumes "cached_fieldsById (types s t) = None" "names_coherent (types s t)"
     "distinct (map fst (tfields (types s t)))"
  shows "(distinct (field_ids (objs s) (tfields (types s t))) \<longrightarrow>
           (\<exists>m. fst (Type_fieldsById s t) = Inr m
              \<and> (\<forall>(n, f) \<in> set (tfields (types s t)). m (field_id (objs s f)) = Some f)))
       \<and> (\<not> distinct (field_ids (objs s) (tfields (types s t))) \<longrightarrow>
           (\<exists>i. fst (Type_fieldsById s t) = Inl (DuplicateId i)))"
proof -
  let ?fs = "tfields (types s t)"
  note c = Type_fieldNames_coherent[OF assms(2)]
  obtain ns s1 where fn: "Type_fieldNames s t = (ns, s1)" by (cases "Type_fieldNames s t")
  with c have ns: "ns = map fst ?fs" and s1: "tfields (types s1 t) = ?fs" "objs s1 = objs s"
    by auto
  show ?thesis
  proof (cases "distinct (field_ids (objs s) ?fs)")
    case True
    with fieldsById_loop_ok[OF assms(3), of ?fs "objs s" Map.empty]
    obtain m where "fieldsById_loop (objs s) ?fs (map fst ?fs) Map.empty = (None, m)"
      "\<forall>(n, f) \<in> set ?fs. m (field_id (objs s f)) = Some f" by auto
    with True fn ns s1 assms(1) show ?thesis
      by (auto simp: Type_fieldsById_def)
  next
    case False
    with fieldsById_loop_dup[OF assms(3), of ?fs "objs s" Map.empty]
    obtain i m where "fieldsById_loop (objs s) ?fs (map fst ?fs) Map.empty = (Some (DuplicateId i), m)"
      by auto
    with False fn ns s1 assms(1) show ?thesis
      by (auto simp: Type_fieldsById_def)
  qed
qed

lemma Type_remove_field:
  assumes "Type_remove s p a = Inr s1" "kind (objs s a) = KField"
  shows "s1 = upd_obj a (\<lambda>x. x\<lparr>message := None\<rparr>)
                   (upd_type p (\<lambda>T. T\<lparr>tfields := AList.delete (name (objs s a)) (tfields T),
                                        cached_fieldsById := None,
                                        cached_fieldNames := None\<rparr>) s)
         \<and> map_of (tfields (types s p)) (name (objs s a)) = Some a"
  using assms by (auto simp: Type_remove_def Let_def split: if_splits)

lemma Type_remove_attrs:
  "Type_remove s p a = Inr s1 \<Longrightarrow>
     field_id (objs s1 b) = field_id (objs s b) \<and> name (objs s1 b) = name (objs s b)
     \<and> kind (objs s1 b) = kind (objs s b) \<and> defaultValue (objs s1 b) = defaultValue (objs s b)
     \<and> required (objs s1 b) = required (objs s b) \<and> repeated (objs s1 b) = repeated (objs s b)
     \<and> map_rule (objs s1 b) = map_rule (objs s b) \<and> arrays s1 = arrays s"
  by (auto simp: Type_remove_def Namespace_remove_def upd_obj_def upd_type_def Let_def
        split: if_splits option.splits)

lemma Type_add_field_state:
  assumes "Type_add s t a = Inr s'" "kind (objs s a) = KField"
  shows "types s' t = (types s t)\<lparr>tfields := AList.update (name (objs s a)) a (tfields (types s t)),
                              cached_fieldsById := None, cached_fieldNames := None\<rparr>
       \<and> (\<forall>b. field_id (objs s' b) = field_id (objs s b) \<and> name (objs s' b) = name (objs s b)
              \<and> kind (objs s' b) = kind (objs s b) \<and> defaultValue (objs s' b) = defaultValue (objs s b))
       \<and> parent (objs s' a) = Some t \<and> message (objs s' a) = Some t"
proof -
  from Type_add_field_pre[OF assms] obtain s1 where
    s1: "types s1 t = types s t" "s' = field_added a t (name (objs s a)) s1"
      "(case parent (objs s a) of None \<Rightarrow> s1 = s | Some p \<Rightarrow> p \<noteq> t \<and> Type_remove s p a = Inr s1)"
    by blast
  have "\<forall>b. field_id (objs s1 b) = field_id (objs s b) \<and> name (objs s1 b) = name (objs s b)
              \<and> kind (objs s1 b) = kind (objs s b) \<and> defaultValue (objs s1 b) = defaultValue (objs s b)"
    using s1(3) Type_remove_attrs[of s _ a s1]
    by (cases "parent (objs s a)") auto
  with s1 show ?thesis
    by (simp add: field_added_def onAdd_def upd_obj_def upd_type_def)
qed

text \<open>
  C7. Every add and every remove of a field resets both derived caches of the type, so
  the next read rebuilds them from the fields the type has then. After an add, the
  name list is the list of the current keys and holds the new name; reading
  \<open>fieldsById\<close> raises the duplicate-id error exactly when the current fields share an
  id, whatever an earlier configuration was, and otherwise returns a map that has the
  new field under its id. After a remove the name is no longer in \<open>fieldNames\<close>.
\<close>

theorem cache_invalidation:
  assumes "kind (objs s a) = KField" and "distinct (map fst (tfields (types s t)))"
  shows "(Type_add s t a = Inr s' \<longrightarrow>
            cached_fieldsById (types s' t) = None \<and> cached_fieldNames (types s' t) = None
            \<and> fst (Type_fieldNames s' t) = map fst (tfields (types s' t))
            \<and> name (objs s a) \<in> set (fst (Type_fieldNames s' t))
            \<and> (\<exists>i. fst (Type_fieldsById s' t) = Inl (DuplicateId i)) = (\<not> distinct (field_ids (objs s') (tfields (types s' t))))
            \<and> (distinct (field_ids (objs s') (tfields (types s' t))) \<longrightarrow>
                 (\<exists>m. fst (Type_fieldsById s' t) = Inr m \<and> m (field_id (objs s a)) = Some a)))
       \<and> (Type_remove s t a = Inr s' \<longrightarrow>
            cached_fieldsById (types s' t) = None \<and> cached_fieldNames (types s' t) = None
            \<and> fst (Type_fieldNames s' t) = map fst (tfields (types s' t))
            \<and> name (objs s a) \<notin> set (fst (Type_fieldNames s' t)))"
proof (intro conjI impI)
  assume add: "Type_add s t a = Inr s'"
  note st = Type_add_field_state[OF add assms(1)]
  from st show c1: "cached_fieldsById (types s' t) = None" by simp
  from st show c2: "cached_fieldNames (types s' t) = None" by simp
  from c2 have coh: "names_coherent (types s' t)" by (simp add: names_coherent_def)
  from Type_fieldNames_coherent[OF coh]
  show fn: "fst (Type_fieldNames s' t) = map fst (tfields (types s' t))" by simp
  from st have mem: "(name (objs s a), a) \<in> set (tfields (types s' t))"
    by (simp add: update_conv map_of_SomeD)
  then show "name (objs s a) \<in> set (fst (Type_fieldNames s' t))"
    unfolding fn by force
  from st assms(2) have d: "distinct (map fst (tfields (types s' t)))"
    by (simp add: distinct_update)
  note fr = Type_fieldsById_fresh[OF c1 coh d]
  show "(\<exists>i. fst (Type_fieldsById s' t) = Inl (DuplicateId i)) = (\<not> distinct (field_ids (objs s') (tfields (types s' t))))"
    using fr by auto
  assume "distinct (field_ids (objs s') (tfields (types s' t)))"
  with fr obtain m where "fst (Type_fieldsById s' t) = Inr m"
    "\<forall>(n, f) \<in> set (tfields (types s' t)). m (field_id (objs s' f)) = Some f" by blast
  with mem st show "\<exists>m. fst (Type_fieldsById s' t) = Inr m \<and> m (field_id (objs s a)) = Some a"
    by fastforce
next
  assume rm: "Type_remove s t a = Inr s'"
  note st = Type_remove_field[OF rm assms(1)]
  from st show "cached_fieldsById (types s' t) = None" by (simp add: upd_obj_def upd_type_def)
  from st show c2: "cached_fieldNames (types s' t) = None" by (simp add: upd_obj_def upd_type_def)
  from c2 have coh: "names_coherent (types s' t)" by (simp add: names_coherent_def)
  from Type_fieldNames_coherent[OF coh]
  show fn: "fst (Type_fieldNames s' t) = map fst (tfields (types s' t))" by simp
  from st have "tfields (types s' t) = AList.delete (name (objs s a)) (tfields (types s t))"
    by (simp add: upd_obj_def upd_type_def)
  then show "name (objs s a) \<notin> set (fst (Type_fieldNames s' t))"
    unfolding fn by (simp add: delete_keys)
qed

theorem cache_invalidation_witness:
  "cached_fieldsById (types stale_store 0) \<noteq> None
   \<and> Type_remove stale_store 0 3 = Inr removed_store
   \<and> ''count'' \<notin> set (fst (Type_fieldNames removed_store 0))
   \<and> Type_add removed_store 0 1 = Inr added_store
   \<and> fst (Type_fieldNames added_store 0) = [''id'', ''name'']
   \<and> returned (fst (Type_fieldsById added_store 0)) 2 = Some 1"
proof -
  have stale: "cached_fieldsById (types stale_store 0) \<noteq> None"
    by (simp add: model_defs sample_defs stale_store_def removed_store_def added_store_def)
  have k: "kind (objs stale_store 3) = KField" "distinct (map fst (tfields (types stale_store 0)))"
    by (simp_all add: model_defs sample_defs stale_store_def removed_store_def added_store_def)
  have rm: "Type_remove stale_store 0 3 = Inr removed_store"
    by (simp add: model_defs sample_defs stale_store_def removed_store_def added_store_def)
  have nm: "name (objs stale_store 3) = ''count''"
    by (simp add: model_defs sample_defs stale_store_def removed_store_def added_store_def)
  from cache_invalidation[OF k, of removed_store] rm
  have "name (objs stale_store 3) \<notin> set (fst (Type_fieldNames removed_store 0))" by blast
  then have gone: "''count'' \<notin> set (fst (Type_fieldNames removed_store 0))"
    unfolding nm .
  have k2: "kind (objs removed_store 1) = KField" "distinct (map fst (tfields (types removed_store 0)))"
    by (simp_all add: model_defs sample_defs stale_store_def removed_store_def added_store_def)
  have ad: "Type_add removed_store 0 1 = Inr added_store"
    by (simp add: model_defs sample_defs stale_store_def removed_store_def added_store_def)
  have ids: "distinct (field_ids (objs added_store) (tfields (types added_store 0)))"
    by (simp add: model_defs sample_defs stale_store_def removed_store_def added_store_def field_ids_def)
  have id1: "field_id (objs removed_store 1) = 2"
    by (simp add: model_defs sample_defs stale_store_def removed_store_def added_store_def)
  from cache_invalidation[OF k2, of added_store] ad ids
  obtain m where "fst (Type_fieldNames added_store 0) = map fst (tfields (types added_store 0))"
    "fst (Type_fieldsById added_store 0) = Inr m" "m (field_id (objs removed_store 1)) = Some 1"
    by blast
  then have "fst (Type_fieldNames added_store 0) = map fst (tfields (types added_store 0))"
    "fst (Type_fieldsById added_store 0) = Inr m" "m 2 = Some 1"
    unfolding id1 by blast+
  moreover have "map fst (tfields (types added_store 0)) = [''id'', ''name'']"
    by (simp add: model_defs sample_defs stale_store_def removed_store_def added_store_def)
  ultimately show ?thesis using stale rm gone ad by (simp add: returned_def)
qed

section \<open>create\<close>

lemma populate_loop_char:
  "\<forall>n \<in> set ns. map_of fs n \<noteq> None \<Longrightarrow>
     populate_loop os fs props ns acc =
       Inr (\<lambda>n. if n \<in> set ns \<and> materialized os fs props n \<noteq> None
                then materialized os fs props n else acc n)"
proof (induction ns arbitrary: acc)
  case Nil
  then show ?case by simp
next
  case (Cons a ns)
  then obtain f where f: "map_of fs a = Some f" by auto
  from Cons have IH: "\<And>acc. populate_loop os fs props ns acc =
       Inr (\<lambda>n. if n \<in> set ns \<and> materialized os fs props n \<noteq> None
                then materialized os fs props n else acc n)" by simp
  show ?case
    by (simp add: f IH Let_def) (auto simp: materialized_def f Let_def fun_eq_iff)
qed

lemma prototype_loop_char:
  "\<forall>n \<in> set ns. map_of fs n \<noteq> None \<Longrightarrow>
     prototype_loop os fs ns acc =
       Inr (\<lambda>n. if n \<in> set ns \<and> template_of os fs n \<noteq> None
                then template_of os fs n else acc n)"
proof (induction ns arbitrary: acc)
  case Nil
  then show ?case by simp
next
  case (Cons a ns)
  then obtain f where f: "map_of fs a = Some f" by auto
  from Cons have IH: "\<And>acc. prototype_loop os fs ns acc =
       Inr (\<lambda>n. if n \<in> set ns \<and> template_of os fs n \<noteq> None
                then template_of os fs n else acc n)" by simp
  show ?case
    by (simp add: f IH Let_def) (auto simp: template_of_def f Let_def fun_eq_iff)
qed

lemma keys_found: "\<forall>n \<in> set (map fst fs). map_of fs n \<noteq> None"
  by (auto simp: map_of_eq_None_iff)

lemma materialized_keys: "n \<notin> set (map fst fs) \<Longrightarrow> materialized os fs props n = None"
  by (simp add: materialized_def map_of_eq_None_iff[THEN iffD2] image_iff)

lemma template_of_keys: "n \<notin> set (map fst fs) \<Longrightarrow> template_of os fs n = None"
  by (simp add: template_of_def map_of_eq_None_iff[THEN iffD2] image_iff)

lemma Type_create_coherent:
  assumes "names_coherent (types s t)"
  shows "\<exists>m s'. Type_create s t properties = (Inr m, s')
     \<and> own m = materialized (objs s) (tfields (types s t))
                 (case properties of None \<Rightarrow> Map.empty | Some p \<Rightarrow> p)
     \<and> proto m = (case cached_prototype (types s t) of
                    Some pr \<Rightarrow> pr
                  | None \<Rightarrow> template_of (objs s) (tfields (types s t)))
     \<and> types s' t = (types s t)\<lparr>cached_fieldNames := Some (map fst (tfields (types s t))),
                                 cached_prototype := Some (proto m)\<rparr>
     \<and> (\<forall>u. u \<noteq> t \<longrightarrow> types s' u = types s u)
     \<and> objs s' = objs s \<and> arrays s' = arrays s \<and> next_array s' = next_array s"
proof -
  let ?fs = "tfields (types s t)"
  let ?ks = "map fst ?fs"
  obtain ns s1 where fn: "Type_fieldNames s t = (ns, s1)" by (cases "Type_fieldNames s t")
  have s1: "s1 = (case cached_fieldNames (types s t) of
               Some ns \<Rightarrow> s
             | None \<Rightarrow> upd_type t (\<lambda>T. T\<lparr>cached_fieldNames := Some ?ks\<rparr>) s)"
    and ns: "ns = ?ks"
    using fn assms by (auto simp: Type_fieldNames_def names_coherent_def Let_def split: option.splits)
  have t1: "types s1 t = (types s t)\<lparr>cached_fieldNames := Some ?ks\<rparr>"
    using s1 assms by (auto simp: names_coherent_def upd_type_def split: option.splits)
  have o1: "objs s1 = objs s" "arrays s1 = arrays s" "next_array s1 = next_array s"
     "\<And>u. u \<noteq> t \<Longrightarrow> types s1 u = types s u"
    using s1 by (auto simp: upd_type_def split: option.splits)
  have pop: "populate_loop (objs s) ?fs props ?ks Map.empty = Inr (materialized (objs s) ?fs props)" for props
    using materialized_keys[of _ ?fs "objs s" props]
    by (simp only: populate_loop_char[OF keys_found]) (auto simp: fun_eq_iff)
  have pro: "prototype_loop (objs s) ?fs ?ks Map.empty = Inr (template_of (objs s) ?fs)"
    using template_of_keys[of _ ?fs "objs s"]
    by (simp only: prototype_loop_char[OF keys_found]) (auto simp: fun_eq_iff)
  show ?thesis
    unfolding Type_create_def
    by (cases "cached_prototype (types s t)")
       (simp_all add: fn ns t1 o1 pop pro Let_def upd_type_def)
qed






text \<open>
  The template is cached once and no add resets it. On a type whose template was built
  before \<open>count\<close> was added, the instance made from \<^verbatim>\<open>{count: 0}\<close> has no value
  of its own under \<open>count\<close> and shows \<^verbatim>\<open>undefined\<close> there, not the default.
\<close>

lemma stale_template_example:
  "own (returned (fst (Type_create late_store 0 (Some [''count'' \<mapsto> JNum 0])))) ''count'' = None
   \<and> msg_get (returned (fst (Type_create late_store 0 (Some [''count'' \<mapsto> JNum 0])))) ''count''
       = JUndefined"
  by (simp add: late_store_def model_defs sample_defs)

section \<open>Duplicate ids\<close>







section \<open>encode\<close>

lemma encode_loop_recording:
  assumes "distinct (map fst fs)" "set ps \<subseteq> set fs" "keyed_by_name os fs"
  shows "encode_loop (\<lambda>f v w. Inr (w @ [(name f, v)])) cz h os fs m (map fst ps) w =
     Inr (w @ map (\<lambda>(n, f). (n, msg_get m n))
                (filter (\<lambda>(n, f). must_write cz h (os f) (msg_get m n)) ps))"
  using assms
proof (induction ps arbitrary: w)
  case Nil
  then show ?case by simp
next
  case (Cons p ps)
  obtain n f where p: "p = (n, f)" by (cases p)
  with Cons.prems have look: "map_of fs n = Some f" by simp
  from Cons.prems p have nm: "name (os f) = n"
    by (auto simp: keyed_by_name_def list_all_iff)
  have sub: "set ps \<subseteq> set fs" using Cons.prems by simp
  note IH = Cons.IH[OF Cons.prems(1) sub Cons.prems(3)]
  show ?case
    by (simp add: p look IH Let_def must_write_def nm)
qed

text \<open>
  C2. With the encoder that records its calls, \<open>encode\<close> returns the fields for which
  \<^verbatim>\<open>field.encode\<close> was called, in the order of declaration: they are exactly the
  declared fields that are required or whose current value is not loosely equal to the
  default. So a declared field is written if and only if it is required or its value is
  loosely unequal to its default.
\<close>

theorem encode_writes_iff:
  assumes "names_coherent (types s t)" and "distinct (map fst (tfields (types s t)))"
    and "keyed_by_name (objs s) (tfields (types s t))"
  shows "\<exists>w. fst (Type_encode recording_encode cz s t m []) = Inr w
     \<and> w = map (\<lambda>(n, f). (n, msg_get m n))
              (filter (\<lambda>(n, f). must_write cz (arrays s) (objs s f) (msg_get m n))
                 (tfields (types s t)))
     \<and> (\<forall>n f. map_of (tfields (types s t)) n = Some f \<longrightarrow>
           ((n, msg_get m n) \<in> set w) =
           (required (objs s f) \<or> \<not> loose_eq cz (arrays s) (msg_get m n) (defaultValue (objs s f))))"
proof -
  let ?fs = "tfields (types s t)"
  let ?w = "map (\<lambda>(n, f). (n, msg_get m n))
              (filter (\<lambda>(n, f). must_write cz (arrays s) (objs s f) (msg_get m n)) ?fs)"
  note c = Type_fieldNames_coherent[OF assms(1)]
  obtain ns s1 where fn: "Type_fieldNames s t = (ns, s1)" by (cases "Type_fieldNames s t")
  with c have ns: "ns = map fst ?fs" and s1: "tfields (types s1 t) = ?fs" "objs s1 = objs s"
      "arrays s1 = arrays s"
    by auto
  have enc: "fst (Type_encode recording_encode cz s t m []) = Inr ?w"
  proof -
    have r: "recording_encode s1 = (\<lambda>f v w. Inr (w @ [(name f, v)]))"
      by (simp add: fun_eq_iff recording_encode_def)
    show ?thesis
      using encode_loop_recording[OF assms(2) subset_refl assms(3), of cz "arrays s" m "[]"]
      by (simp add: Type_encode_def fn ns s1 r)
  qed
  have "((n, msg_get m n) \<in> set ?w) = must_write cz (arrays s) (objs s f) (msg_get m n)"
    if "map_of ?fs n = Some f" for n f
  proof -
    from that have mem: "(n, f) \<in> set ?fs" by (rule map_of_SomeD)
    have uniq: "f' = f" if "(n, f') \<in> set ?fs" for f'
      by (rule eq_key_imp_eq_value[OF assms(2) that mem])
    have "((n, msg_get m n) \<in> set ?w) =
        (\<exists>f'. (n, f') \<in> set ?fs \<and> must_write cz (arrays s) (objs s f') (msg_get m n))"
      by force
    also have "\<dots> = must_write cz (arrays s) (objs s f) (msg_get m n)"
      using mem uniq by blast
    finally show ?thesis .
  qed
  with enc show ?thesis by (auto simp: must_write_def)
qed

theorem encode_writes_iff_witness:
  "names_coherent (types example_store 0)
   \<and> distinct (map fst (tfields (types example_store 0)))
   \<and> keyed_by_name (objs example_store) (tfields (types example_store 0))
   \<and> fst (Type_encode recording_encode sample_coercions example_store 0
            \<lparr>own = [''id'' \<mapsto> JNum 0, ''name'' \<mapsto> JNum 0], proto = Map.empty\<rparr> [])
       = Inr [(''id'', JNum 0)]"
proof -
  let ?m = "\<lparr>own = [''id'' \<mapsto> JNum 0, ''name'' \<mapsto> JNum 0], proto = Map.empty\<rparr>"
  have h: "names_coherent (types example_store 0)"
    "distinct (map fst (tfields (types example_store 0)))"
    "keyed_by_name (objs example_store) (tfields (types example_store 0))"
    by (simp_all add: names_coherent_def keyed_by_name_def model_defs sample_defs)
  have ev: "map (\<lambda>(n, f). (n, msg_get ?m n))
              (filter (\<lambda>(n, f). must_write sample_coercions (arrays example_store)
                   (objs example_store f) (msg_get ?m n))
                 (tfields (types example_store 0))) = [(''id'', JNum 0)]"
    by (simp add: model_defs sample_defs must_write_def)
  from encode_writes_iff[OF h, of sample_coercions ?m]
  have "fst (Type_encode recording_encode sample_coercions example_store 0 ?m []) =
     Inr (map (\<lambda>(n, f). (n, msg_get ?m n))
              (filter (\<lambda>(n, f). must_write sample_coercions (arrays example_store)
                   (objs example_store f) (msg_get ?m n))
                 (tfields (types example_store 0))))"
    by auto
  then show ?thesis using h unfolding ev by simp
qed

text \<open>
  The two examples of the specification, with the sample codec: \<^verbatim>\<open>{id: 7, name: "x"}\<close>
  is written as 08 07 12 01 78, and \<^verbatim>\<open>{id: 7, name: ""}\<close> as 08 07 only.
\<close>

lemma end_to_end_example:
  "fst (Type_encode sample_encode sample_coercions example_store 0
          (returned (fst (Type_create example_store 0
             (Some [''id'' \<mapsto> JNum 7, ''name'' \<mapsto> JStr ''x''])))) [])
     = Inr [8, 7, 18, 1, 120]"
  by (simp add: model_defs sample_defs sample_encode_def write_varint.simps)

lemma default_suppression_example:
  "fst (Type_encode sample_encode sample_coercions example_store 0
          (returned (fst (Type_create example_store 0
             (Some [''id'' \<mapsto> JNum 7, ''name'' \<mapsto> JStr ''''])))) [])
     = Inr [8, 7]"
  by (simp add: model_defs sample_defs sample_encode_def write_varint.simps)

section \<open>decode\<close>

lemma decode_loop_step:
  "pos r < limit \<Longrightarrow> decode_step fdec byId s r m = (Inr (r', m'), s')
     \<Longrightarrow> decode_loop fdec byId limit s r m = decode_loop fdec byId limit s' r' m'"
  by (subst decode_loop.simps) simp

lemma decode_loop_error:
  "pos r < limit \<Longrightarrow> decode_step fdec byId s r m = (Inl e, s')
     \<Longrightarrow> decode_loop fdec byId limit s r m = (Inl e, s')"
  by (subst decode_loop.simps) simp

lemma decode_loop_done:
  "\<not> pos r < limit \<Longrightarrow> decode_loop fdec byId limit s r m = (Inr (r, m), s)"
  by (subst decode_loop.simps) simp

lemma decode_loop_unfold:
  "decode_loop fdec byId limit s r m =
     (if pos r < limit then
        (if isl (fst (decode_step fdec byId s r m))
         then (Inl (projl (fst (decode_step fdec byId s r m))), snd (decode_step fdec byId s r m))
         else decode_loop fdec byId limit (snd (decode_step fdec byId s r m))
                (fst (projr (fst (decode_step fdec byId s r m))))
                (snd (projr (fst (decode_step fdec byId s r m)))))
      else (Inr (r, m), s))"
  by (subst decode_loop.simps) (auto split: prod.splits sum.splits)

lemma char_of_120: "char_of (120::nat) = CHR ''x''"
  by code_simp

lemmas decode_defs =
  decode_step_def decode_known_def skip_unknown_def Reader_tag_def Reader_uint32_def
  Reader_skip_def new_array_def sample_decode_def char_of_120

text \<open>
  C3. In a turn of the loop whose tag carries a field id that is not in the
  \<open>fieldsById\<close> map, the message and the store are left as they are and the loop goes
  on behind the skipped bytes: behind one varint for wire type 0, 8 bytes on for wire
  type 1, behind the length varint and as many bytes as it declares for wire type 2, 4
  bytes on for wire type 5, provided the buffer holds these bytes. For any other wire
  type the loop ends with the unsupported-wire-type error.
\<close>

theorem unknown_field_skipped:
  assumes "pos r < limit" and "Reader_tag r = Inr (tag, r1)" and "byId (tag_id tag) = None"
  shows
    "(wireType tag = 0 \<and> read_varint (drop (pos r1) (buf r1)) = Some (v, k) \<longrightarrow>
        decode_loop fdec byId limit s r m
          = decode_loop fdec byId limit s (r1\<lparr>pos := pos r1 + k\<rparr>) m)
     \<and> (wireType tag = 1 \<and> pos r1 + 8 \<le> length (buf r1) \<longrightarrow>
        decode_loop fdec byId limit s r m
          = decode_loop fdec byId limit s (r1\<lparr>pos := pos r1 + 8\<rparr>) m)
     \<and> (wireType tag = 2 \<and> read_varint (drop (pos r1) (buf r1)) = Some (l, j)
          \<and> pos r1 + j + l \<le> length (buf r1) \<longrightarrow>
        decode_loop fdec byId limit s r m
          = decode_loop fdec byId limit s (r1\<lparr>pos := pos r1 + j + l\<rparr>) m)
     \<and> (wireType tag = 5 \<and> pos r1 + 4 \<le> length (buf r1) \<longrightarrow>
        decode_loop fdec byId limit s r m
          = decode_loop fdec byId limit s (r1\<lparr>pos := pos r1 + 4\<rparr>) m)
     \<and> (wireType tag \<notin> {0, 1, 2, 5} \<longrightarrow>
        decode_loop fdec byId limit s r m
          = (Inl (UnsupportedWireType (tag_id tag) (wireType tag)), s))"
proof -
  have step: "decode_step fdec byId s r m =
      (case skip_unknown tag r1 of Inl e \<Rightarrow> (Inl e, s) | Inr r2 \<Rightarrow> (Inr (r2, m), s))"
    using assms(2,3) by (simp add: decode_step_def)
  have go: "skip_unknown tag r1 = Inr r2 \<Longrightarrow>
      decode_loop fdec byId limit s r m = decode_loop fdec byId limit s r2 m" for r2
    using decode_loop_step[OF assms(1), of fdec byId s m r2 m s] step by simp
  have stop: "skip_unknown tag r1 = Inl e \<Longrightarrow>
      decode_loop fdec byId limit s r m = (Inl e, s)" for e
    using decode_loop_error[OF assms(1), of fdec byId s m e s] step by simp
  show ?thesis
  proof (intro conjI impI; (elim conjE)?)
    assume "wireType tag = 0" "read_varint (drop (pos r1) (buf r1)) = Some (v, k)"
    then show "decode_loop fdec byId limit s r m
          = decode_loop fdec byId limit s (r1\<lparr>pos := pos r1 + k\<rparr>) m"
      by (intro go) (simp add: skip_unknown_def Reader_skip_def)
  next
    assume "wireType tag = 1" "pos r1 + 8 \<le> length (buf r1)"
    then show "decode_loop fdec byId limit s r m
          = decode_loop fdec byId limit s (r1\<lparr>pos := pos r1 + 8\<rparr>) m"
      by (intro go) (simp add: skip_unknown_def Reader_skip_def)
  next
    assume "wireType tag = 2" "read_varint (drop (pos r1) (buf r1)) = Some (l, j)"
      "pos r1 + j + l \<le> length (buf r1)"
    then show "decode_loop fdec byId limit s r m
          = decode_loop fdec byId limit s (r1\<lparr>pos := pos r1 + j + l\<rparr>) m"
      by (intro go) (simp add: skip_unknown_def Reader_skip_def Reader_uint32_def)
  next
    assume "wireType tag = 5" "pos r1 + 4 \<le> length (buf r1)"
    then show "decode_loop fdec byId limit s r m
          = decode_loop fdec byId limit s (r1\<lparr>pos := pos r1 + 4\<rparr>) m"
      by (intro go) (simp add: skip_unknown_def Reader_skip_def)
  next
    assume "wireType tag \<notin> {0, 1, 2, 5}"
    then show "decode_loop fdec byId limit s r m
          = (Inl (UnsupportedWireType (tag_id tag) (wireType tag)), s)"
      by (intro stop) (simp add: skip_unknown_def)
  qed
qed

theorem unknown_field_skipped_witness:
  "decode_loop sample_decode Map.empty 3 sample_store \<lparr>buf = [72, 200, 1], pos = 0\<rparr>
       \<lparr>own = Map.empty, proto = Map.empty\<rparr>
     = (Inr (\<lparr>buf = [72, 200, 1], pos = 3\<rparr>, \<lparr>own = Map.empty, proto = Map.empty\<rparr>), sample_store)
   \<and> decode_loop sample_decode Map.empty 9 sample_store
         \<lparr>buf = [73, 1, 2, 3, 4, 5, 6, 7, 8], pos = 0\<rparr> \<lparr>own = Map.empty, proto = Map.empty\<rparr>
     = (Inr (\<lparr>buf = [73, 1, 2, 3, 4, 5, 6, 7, 8], pos = 9\<rparr>,
             \<lparr>own = Map.empty, proto = Map.empty\<rparr>), sample_store)
   \<and> decode_loop sample_decode Map.empty 4 sample_store \<lparr>buf = [74, 2, 170, 187], pos = 0\<rparr>
         \<lparr>own = Map.empty, proto = Map.empty\<rparr>
     = (Inr (\<lparr>buf = [74, 2, 170, 187], pos = 4\<rparr>, \<lparr>own = Map.empty, proto = Map.empty\<rparr>),
        sample_store)
   \<and> decode_loop sample_decode Map.empty 5 sample_store \<lparr>buf = [77, 1, 2, 3, 4], pos = 0\<rparr>
         \<lparr>own = Map.empty, proto = Map.empty\<rparr>
     = (Inr (\<lparr>buf = [77, 1, 2, 3, 4], pos = 5\<rparr>, \<lparr>own = Map.empty, proto = Map.empty\<rparr>),
        sample_store)
   \<and> decode_loop sample_decode Map.empty 2 sample_store \<lparr>buf = [75, 0], pos = 0\<rparr>
         \<lparr>own = Map.empty, proto = Map.empty\<rparr>
     = (Inl (UnsupportedWireType 9 3), sample_store)"
proof -
  let ?m = "\<lparr>own = Map.empty, proto = Map.empty\<rparr> :: Message"
  have t0: "Reader_tag \<lparr>buf = [72, 200, 1], pos = 0\<rparr>
      = Inr (\<lparr>tag_id = 9, wireType = 0\<rparr>, \<lparr>buf = [72, 200, 1], pos = 1\<rparr>)"
    by (simp add: Reader_tag_def Reader_uint32_def)
  have v0: "read_varint (drop 1 [72, 200, 1]) = Some (200, 2)"
    by (simp add: drop_Cons')
  from unknown_field_skipped[OF _ t0, where limit = 3 and byId = Map.empty and v = 200 and k = 2
      and fdec = sample_decode and s = sample_store and m = ?m] v0
  have w0: "decode_loop sample_decode Map.empty 3 sample_store \<lparr>buf = [72, 200, 1], pos = 0\<rparr> ?m
     = (Inr (\<lparr>buf = [72, 200, 1], pos = 3\<rparr>, ?m), sample_store)"
    by (simp add: decode_loop_done)
  have t1: "Reader_tag \<lparr>buf = [73, 1, 2, 3, 4, 5, 6, 7, 8], pos = 0\<rparr>
      = Inr (\<lparr>tag_id = 9, wireType = 1\<rparr>, \<lparr>buf = [73, 1, 2, 3, 4, 5, 6, 7, 8], pos = 1\<rparr>)"
    by (simp add: Reader_tag_def Reader_uint32_def)
  from unknown_field_skipped[OF _ t1, where limit = 9 and byId = Map.empty
      and fdec = sample_decode and s = sample_store and m = ?m]
  have w1: "decode_loop sample_decode Map.empty 9 sample_store
         \<lparr>buf = [73, 1, 2, 3, 4, 5, 6, 7, 8], pos = 0\<rparr> ?m
     = (Inr (\<lparr>buf = [73, 1, 2, 3, 4, 5, 6, 7, 8], pos = 9\<rparr>, ?m), sample_store)"
    by (simp add: decode_loop_done)
  have t2: "Reader_tag \<lparr>buf = [74, 2, 170, 187], pos = 0\<rparr>
      = Inr (\<lparr>tag_id = 9, wireType = 2\<rparr>, \<lparr>buf = [74, 2, 170, 187], pos = 1\<rparr>)"
    by (simp add: Reader_tag_def Reader_uint32_def)
  have v2: "read_varint (drop 1 [74, 2, 170, 187]) = Some (2, 1)"
    by (simp add: drop_Cons')
  from unknown_field_skipped[OF _ t2, where limit = 4 and byId = Map.empty and l = 2 and j = 1
      and fdec = sample_decode and s = sample_store and m = ?m] v2
  have w2: "decode_loop sample_decode Map.empty 4 sample_store \<lparr>buf = [74, 2, 170, 187], pos = 0\<rparr> ?m
     = (Inr (\<lparr>buf = [74, 2, 170, 187], pos = 4\<rparr>, ?m), sample_store)"
    by (simp add: decode_loop_done)
  have t5: "Reader_tag \<lparr>buf = [77, 1, 2, 3, 4], pos = 0\<rparr>
      = Inr (\<lparr>tag_id = 9, wireType = 5\<rparr>, \<lparr>buf = [77, 1, 2, 3, 4], pos = 1\<rparr>)"
    by (simp add: Reader_tag_def Reader_uint32_def)
  from unknown_field_skipped[OF _ t5, where limit = 5 and byId = Map.empty
      and fdec = sample_decode and s = sample_store and m = ?m]
  have w5: "decode_loop sample_decode Map.empty 5 sample_store \<lparr>buf = [77, 1, 2, 3, 4], pos = 0\<rparr> ?m
     = (Inr (\<lparr>buf = [77, 1, 2, 3, 4], pos = 5\<rparr>, ?m), sample_store)"
    by (simp add: decode_loop_done)
  have t3: "Reader_tag \<lparr>buf = [75, 0], pos = 0\<rparr>
      = Inr (\<lparr>tag_id = 9, wireType = 3\<rparr>, \<lparr>buf = [75, 0], pos = 1\<rparr>)"
    by (simp add: Reader_tag_def Reader_uint32_def)
  from unknown_field_skipped[OF _ t3, where limit = 2 and byId = Map.empty
      and fdec = sample_decode and s = sample_store and m = ?m]
  have w3: "decode_loop sample_decode Map.empty 2 sample_store \<lparr>buf = [75, 0], pos = 0\<rparr> ?m
     = (Inl (UnsupportedWireType 9 3), sample_store)"
    by simp
  from w0 w1 w2 w5 w3 show ?thesis by blast
qed

text \<open>
  C4. When the loop of \<open>decode\<close> ends without an error, \<open>decode\<close> returns the
  message only if the cursor stands on the limit, and otherwise raises the
  invalid-wire-format error with the two positions. Hence whenever \<open>decode\<close> returns a
  message, its loop ended with the cursor exactly on the limit.
\<close>

theorem decode_limit_check:
  "(Type_create s t (Some Map.empty) = (Inr msg, s1) \<and> Type_fieldsById s1 t = (Inr byId, s2)
      \<and> decode_loop fdec byId (decode_limit reader len) s2 reader msg = (Inr (r', m'), s3)
      \<longrightarrow> Type_decode fdec s t reader len =
            (if pos r' = decode_limit reader len then (Inr m', s3)
             else (Inl (InvalidWireFormat (pos r') (decode_limit reader len)), s3)))
   \<and> (Type_decode fdec s t reader len = (Inr m, s') \<longrightarrow>
        (\<exists>msg s1 byId s2 r'.
            Type_create s t (Some Map.empty) = (Inr msg, s1)
            \<and> Type_fieldsById s1 t = (Inr byId, s2)
            \<and> decode_loop fdec byId (decode_limit reader len) s2 reader msg = (Inr (r', m), s')
            \<and> pos r' = decode_limit reader len))"
  by (auto simp: Type_decode_def Let_def split: prod.splits sum.splits if_splits)

theorem decode_limit_check_witness:
  "fst (Type_decode sample_decode example_store 0 \<lparr>buf = [8, 7, 18, 1, 120], pos = 0\<rparr> (Some 3))
     = Inl (InvalidWireFormat 5 3)
   \<and> msg_get (returned (fst (Type_decode sample_decode example_store 0
                 \<lparr>buf = [8, 7, 18, 1, 120], pos = 0\<rparr> None))) ''id'' = JNum 7
   \<and> msg_get (returned (fst (Type_decode sample_decode example_store 0
                 \<lparr>buf = [8, 7, 18, 1, 120], pos = 0\<rparr> None))) ''name'' = JStr ''x''"
proof -
  define R where "R = \<lparr>buf = [8, 7, 18, 1, 120], pos = 0\<rparr>"
  define C where "C = Type_create example_store 0 (Some Map.empty)"
  define B where "B = Type_fieldsById (snd C) 0"
  define L3 where
    "L3 = decode_loop sample_decode (returned (fst B)) (decode_limit R (Some 3)) (snd B) R
            (returned (fst C))"
  define L5 where
    "L5 = decode_loop sample_decode (returned (fst B)) (decode_limit R None) (snd B) R
            (returned (fst C))"
  have c: "Type_create example_store 0 (Some Map.empty) = (Inr (returned (fst C)), snd C)"
    unfolding C_def by (simp add: model_defs sample_defs)
  have b: "Type_fieldsById (snd C) 0 = (Inr (returned (fst B)), snd B)"
    unfolding B_def C_def by (simp add: model_defs sample_defs)
  have l3: "L3 = (Inr (fst (returned (fst L3)), snd (returned (fst L3))), snd L3)"
    and p3: "pos (fst (returned (fst L3))) = 5"
    unfolding L3_def B_def C_def R_def
    by (simp_all add: decode_loop_unfold model_defs sample_defs decode_defs drop_Cons')
  have l5: "L5 = (Inr (fst (returned (fst L5)), snd (returned (fst L5))), snd L5)"
    and p5: "pos (fst (returned (fst L5))) = 5"
    and m5: "msg_get (snd (returned (fst L5))) ''id'' = JNum 7"
      "msg_get (snd (returned (fst L5))) ''name'' = JStr ''x''"
    unfolding L5_def B_def C_def R_def
    by (simp_all add: decode_loop_unfold model_defs sample_defs decode_defs drop_Cons')
  have lim: "decode_limit R (Some 3) = 3" "decode_limit R None = 5"
    by (simp_all add: decode_limit_def R_def)
  from decode_limit_check[of example_store 0 "returned (fst C)" "snd C" "returned (fst B)" "snd B"
      sample_decode R "Some 3" "fst (returned (fst L3))" "snd (returned (fst L3))" "snd L3",
      THEN conjunct1] c b l3
  have "Type_decode sample_decode example_store 0 R (Some 3)
      = (if pos (fst (returned (fst L3))) = decode_limit R (Some 3)
         then (Inr (snd (returned (fst L3))), snd L3)
         else (Inl (InvalidWireFormat (pos (fst (returned (fst L3)))) (decode_limit R (Some 3))),
               snd L3))"
    unfolding L3_def by blast
  then have d3: "fst (Type_decode sample_decode example_store 0 R (Some 3))
      = Inl (InvalidWireFormat 5 3)"
    by (simp add: p3 lim)
  from decode_limit_check[of example_store 0 "returned (fst C)" "snd C" "returned (fst B)" "snd B"
      sample_decode R None "fst (returned (fst L5))" "snd (returned (fst L5))" "snd L5",
      THEN conjunct1] c b l5
  have "Type_decode sample_decode example_store 0 R None
      = (if pos (fst (returned (fst L5))) = decode_limit R None
         then (Inr (snd (returned (fst L5))), snd L5)
         else (Inl (InvalidWireFormat (pos (fst (returned (fst L5)))) (decode_limit R None)),
               snd L5))"
    unfolding L5_def by blast
  then have "Type_decode sample_decode example_store 0 R None
      = (Inr (snd (returned (fst L5))), snd L5)"
    by (simp add: p5 lim)
  then have d5: "returned (fst (Type_decode sample_decode example_store 0 R None))
      = snd (returned (fst L5))"
    by (simp add: returned_Inr)
  from d3 d5 m5 show ?thesis unfolding R_def by simp
qed

section \<open>Ownership of fields\<close>

lemma Type_remove_owned:
  assumes "owned_inv s" "Type_remove s p a = Inr s1" "kind (objs s a) = KField"
  shows "owned_inv s1 \<and> (\<forall>n. map_of (tfields (types s1 p)) n \<noteq> Some a)
     \<and> (\<forall>u. u \<noteq> p \<longrightarrow> types s1 u = types s u)
     \<and> parent (objs s1 a) = parent (objs s a) \<and> name (objs s1 a) = name (objs s a)
     \<and> (\<forall>x. x \<noteq> a \<longrightarrow> objs s1 x = objs s x)"
proof -
  note r = Type_remove_field[OF assms(2,3)]
  then have s1: "s1 = upd_obj a (\<lambda>x. x\<lparr>message := None\<rparr>)
                   (upd_type p (\<lambda>T. T\<lparr>tfields := AList.delete (name (objs s a)) (tfields T),
                                        cached_fieldsById := None,
                                        cached_fieldNames := None\<rparr>) s)" by simp
  have inv: "owned_inv s1"
    using assms(1) unfolding s1 owned_inv_def
    by (auto simp: upd_obj_def upd_type_def delete_conv split: if_splits)
  have gone: "\<forall>n. map_of (tfields (types s1 p)) n \<noteq> Some a"
    using assms(1) unfolding s1 owned_inv_def
    by (auto simp: upd_obj_def upd_type_def delete_conv split: if_splits)
  show ?thesis using inv gone unfolding s1
    by (auto simp: upd_obj_def upd_type_def)
qed

text \<open>
  C10. In a store where every bound field has the binding type as its parent, a
  successful \<open>add\<close> of a field to a type leaves the field bound in that type and in
  no other, and the ownership invariant holds again. If the field had a parent, the
  parent was another type, \<open>remove\<close> on it succeeded, and the field is no longer bound
  there.
\<close>

theorem field_single_owner:
  assumes "owned_inv s" and "kind (objs s a) = KField" and "Type_add s t a = Inr s'"
  shows "owners s' a = {t} \<and> owned_inv s'
     \<and> (\<forall>p. parent (objs s a) = Some p \<longrightarrow>
           p \<noteq> t \<and> (\<exists>s1. Type_remove s p a = Inr s1)
           \<and> (\<forall>n. map_of (tfields (types s' p)) n \<noteq> Some a))"
proof -
  let ?n = "name (objs s a)"
  from Type_add_field_pre[OF assms(3,2)] obtain s1 where
    t1: "types s1 t = types s t" and s': "s' = field_added a t ?n s1"
    and par: "(case parent (objs s a) of
          None \<Rightarrow> s1 = s
        | Some p \<Rightarrow> p \<noteq> t \<and> Type_remove s p a = Inr s1)"
    by blast
  have pre: "owned_inv s1 \<and> name (objs s1 a) = ?n
      \<and> (\<forall>u n. u \<noteq> t \<longrightarrow> map_of (tfields (types s1 u)) n \<noteq> Some a)"
  proof (cases "parent (objs s a)")
    case None
    with par have "s1 = s" by simp
    moreover have "map_of (tfields (types s u)) n \<noteq> Some a" for u n
      using assms(1) None unfolding owned_inv_def by fastforce
    ultimately show ?thesis using assms(1) by simp
  next
    case (Some p)
    with par have pt: "p \<noteq> t" and rm: "Type_remove s p a = Inr s1" by simp_all
    note ro = Type_remove_owned[OF assms(1) rm assms(2)]
    have "map_of (tfields (types s1 u)) n \<noteq> Some a" if "u \<noteq> t" for u n
    proof (cases "u = p")
      case True
      with ro show ?thesis by simp
    next
      case False
      with ro have "types s1 u = types s u" by simp
      moreover have "map_of (tfields (types s u)) n \<noteq> Some a"
        using assms(1) Some False unfolding owned_inv_def by fastforce
      ultimately show ?thesis by simp
    qed
    with ro show ?thesis by simp
  qed
  then have inv1: "owned_inv s1" and nm1: "name (objs s1 a) = ?n"
    and other: "\<And>u n. u \<noteq> t \<Longrightarrow> map_of (tfields (types s1 u)) n \<noteq> Some a"
    by blast+
  have inv': "owned_inv s'"
    unfolding owned_inv_def
  proof (intro allI impI)
    fix u n f
    assume b: "map_of (tfields (types s' u)) n = Some f"
    show "parent (objs s' f) = Some u \<and> name (objs s' f) = n"
    proof (cases "u = t")
      case True
      show ?thesis
      proof (cases "n = ?n")
        case True
        with b \<open>u = t\<close> have "f = a"
          by (simp add: s' field_added_def onAdd_def upd_obj_def upd_type_def update_conv)
        with True \<open>u = t\<close> nm1 show ?thesis
          by (simp add: s' field_added_def onAdd_def upd_obj_def upd_type_def)
      next
        case False
        with b \<open>u = t\<close> have old: "map_of (tfields (types s1 t)) n = Some f"
          by (simp add: s' field_added_def onAdd_def upd_obj_def upd_type_def update_conv)
        with inv1 have pn: "parent (objs s1 f) = Some t" "name (objs s1 f) = n"
          unfolding owned_inv_def by blast+
        with False nm1 have "f \<noteq> a" by auto
        with pn \<open>u = t\<close> show ?thesis
          by (simp add: s' field_added_def onAdd_def upd_obj_def upd_type_def)
      qed
    next
      case False
      with b have old: "map_of (tfields (types s1 u)) n = Some f"
        by (simp add: s' field_added_def onAdd_def upd_obj_def upd_type_def)
      with other[OF False] have "f \<noteq> a" by auto
      moreover from old inv1 have "parent (objs s1 f) = Some u" "name (objs s1 f) = n"
        unfolding owned_inv_def by blast+
      ultimately show ?thesis
        by (simp add: s' field_added_def onAdd_def upd_obj_def upd_type_def)
    qed
  qed
  have bound: "map_of (tfields (types s' t)) ?n = Some a"
    by (simp add: s' field_added_def onAdd_def upd_obj_def upd_type_def update_conv)
  have pa: "parent (objs s' a) = Some t"
    by (simp add: s' field_added_def onAdd_def upd_obj_def upd_type_def)
  have own: "owners s' a = {t}"
  proof
    show "owners s' a \<subseteq> {t}"
      using inv' pa unfolding owners_def owned_inv_def by fastforce
    show "{t} \<subseteq> owners s' a"
      using bound unfolding owners_def by blast
  qed
  have "p \<noteq> t \<and> (\<exists>s1. Type_remove s p a = Inr s1)
           \<and> (\<forall>n. map_of (tfields (types s' p)) n \<noteq> Some a)"
    if "parent (objs s a) = Some p" for p
  proof -
    from that par have pt: "p \<noteq> t" and rm: "Type_remove s p a = Inr s1" by simp_all
    have "map_of (tfields (types s' p)) n \<noteq> Some a" for n
      using own pt unfolding owners_def by blast
    with pt rm show ?thesis by blast
  qed
  with own inv' show ?thesis by blast
qed

theorem field_single_owner_witness:
  "owned_inv example_store
   \<and> Type_add example_store 1 1 = Inr moved_store
   \<and> owners moved_store 1 = {1}
   \<and> map_of (tfields (types moved_store 0)) ''name'' = None
   \<and> map_of (tfields (types moved_store 1)) ''name'' = Some 1"
proof -
  define S1 where "S1 = returned (Type_add sample_store 0 0)"
  have i0: "owned_inv sample_store"
    by (simp add: owned_inv_def sample_store_def new_Type_def)
  have k0: "kind (objs sample_store 0) = KField"
    by (simp add: sample_defs)
  have a1: "Type_add sample_store 0 0 = Inr S1"
    unfolding S1_def by (simp add: model_defs sample_defs)
  from field_single_owner[OF i0 k0 a1] have i1: "owned_inv S1" by blast
  have k1: "kind (objs S1 1) = KField"
    unfolding S1_def by (simp add: model_defs sample_defs)
  have a2: "Type_add S1 0 1 = Inr example_store"
    unfolding S1_def by (simp add: model_defs sample_defs)
  from field_single_owner[OF i1 k1 a2] have i2: "owned_inv example_store" by blast
  have k2: "kind (objs example_store 1) = KField"
    by (simp add: model_defs sample_defs)
  have a3: "Type_add example_store 1 1 = Inr moved_store"
    by (simp add: model_defs sample_defs moved_store_def)
  from field_single_owner[OF i2 k2 a3] have o: "owners moved_store 1 = {1}" by blast
  have "map_of (tfields (types moved_store 0)) ''name'' = None"
    "map_of (tfields (types moved_store 1)) ''name'' = Some 1"
    by (simp_all add: model_defs sample_defs moved_store_def)
  with i2 a3 o show ?thesis by blast
qed

section \<open>Round trip\<close>

lemma encode_loop_chunks:
  assumes "distinct (map fst fs)" "set ps \<subseteq> set fs"
    and enc: "\<forall>(n, f) \<in> set ps. must_write cz h (os f) (msg_get m n)
                \<longrightarrow> (\<forall>w. fenc (os f) (msg_get m n) w = Inr (w @ chunk (os f) (msg_get m n)))"
  shows "encode_loop fenc cz h os fs m (map fst ps) w =
     Inr (w @ concat (map (\<lambda>(n, f). chunk (os f) (msg_get m n))
                (filter (\<lambda>(n, f). must_write cz h (os f) (msg_get m n)) ps)))"
  using assms
proof (induction ps arbitrary: w)
  case Nil
  then show ?case by simp
next
  case (Cons p ps)
  obtain n f where p: "p = (n, f)" by (cases p)
  with Cons.prems have look: "map_of fs n = Some f" by simp
  have sub: "set ps \<subseteq> set fs" using Cons.prems by simp
  have enc': "\<forall>(n, f) \<in> set ps. must_write cz h (os f) (msg_get m n)
                \<longrightarrow> (\<forall>w. fenc (os f) (msg_get m n) w = Inr (w @ chunk (os f) (msg_get m n)))"
    using Cons.prems(3) by simp
  note IH = Cons.IH[OF Cons.prems(1) sub enc']
  show ?case
  proof (cases "must_write cz h (os f) (msg_get m n)")
    case True
    with Cons.prems(3) p have e: "fenc (os f) (msg_get m n) w = Inr (w @ chunk (os f) (msg_get m n))"
      by simp
    from True have c: "required (os f) \<or> \<not> loose_eq cz h (msg_get m n) (defaultValue (os f))"
      by (simp add: must_write_def)
    show ?thesis using True c
      by (simp add: p look Let_def e IH)
  next
    case False
    then have c: "\<not> (required (os f) \<or> \<not> loose_eq cz h (msg_get m n) (defaultValue (os f)))"
      by (simp add: must_write_def)
    show ?thesis using False c
      by (simp add: p look Let_def IH)
  qed
qed


lemma put_all_Cons: "put_all val ps (ow(n \<mapsto> val n)) = put_all val ((n, f) # ps) ow"
  by (auto simp: put_all_def fun_eq_iff)

lemma put_all_Cons_if:
  "put_all val ps (\<lambda>a. if a = n then Some (val n) else ow a) = put_all val ((n, f) # ps) ow"
  by (auto simp: put_all_def fun_eq_iff)

lemma put_all_Nil: "put_all val [] ow = ow"
  by (simp add: put_all_def)

lemma decode_loop_chunks:
  assumes byid: "\<forall>(n, f) \<in> set ps. byId (field_id (objs s f)) = Some f"
    and nm: "\<forall>(n, f) \<in> set ps. name (objs s f) = n \<and> \<not> repeated (objs s f)"
    and dec: "\<forall>(n, f) \<in> set ps. \<forall>r rest.
        drop (pos r) (buf r) = chunk (objs s f) (val n) @ rest \<longrightarrow>
        (\<exists>wt j k. Reader_tag r
                     = Inr (\<lparr>tag_id = field_id (objs s f), wireType = wt\<rparr>, r\<lparr>pos := pos r + j\<rparr>)
           \<and> fdec (objs s f) (r\<lparr>pos := pos r + j\<rparr>) wt = Inr (Single (val n), k)
           \<and> j + k = length (chunk (objs s f) (val n)))"
    and bytes: "drop (pos r) (buf r) = concat (map (\<lambda>(n, f). chunk (objs s f) (val n)) ps)"
    and inside: "pos r \<le> length (buf r)"
  shows "decode_loop fdec byId (length (buf r)) s r m =
     (Inr (r\<lparr>pos := length (buf r)\<rparr>,
           m\<lparr>own := put_all val ps (own m)\<rparr>), s)"
  using assms
proof (induction ps arbitrary: r m)
  case Nil
  then have "pos r = length (buf r)" by simp
  then show ?case by (simp add: decode_loop_done put_all_Nil)
next
  case (Cons p ps)
  obtain n f where p: "p = (n, f)" by (cases p)
  let ?F = "objs s f"
  let ?rest = "concat (map (\<lambda>(n, f). chunk (objs s f) (val n)) ps)"
  from Cons.prems(4) p have split: "drop (pos r) (buf r) = chunk ?F (val n) @ ?rest" by simp
  from Cons.prems(3) p have "\<forall>r rest.
        drop (pos r) (buf r) = chunk ?F (val n) @ rest \<longrightarrow>
        (\<exists>wt j k. Reader_tag r
                     = Inr (\<lparr>tag_id = field_id ?F, wireType = wt\<rparr>, r\<lparr>pos := pos r + j\<rparr>)
           \<and> fdec ?F (r\<lparr>pos := pos r + j\<rparr>) wt = Inr (Single (val n), k)
           \<and> j + k = length (chunk ?F (val n)))"
    by simp
  from this[rule_format, OF split] obtain wt j k where
    tg: "Reader_tag r = Inr (\<lparr>tag_id = field_id ?F, wireType = wt\<rparr>, r\<lparr>pos := pos r + j\<rparr>)"
    and fd: "fdec ?F (r\<lparr>pos := pos r + j\<rparr>) wt = Inr (Single (val n), k)"
    and len: "j + k = length (chunk ?F (val n))"
    by blast
  from Reader_tag_pos[OF tg] have j: "0 < j" by simp
  have total: "length (drop (pos r) (buf r)) = length (chunk ?F (val n)) + length ?rest"
    using split by simp
  with j len have lt: "pos r < length (buf r)" by simp
  from Cons.prems(1,2) p have look: "byId (field_id ?F) = Some f"
    and nf: "name ?F = n" "\<not> repeated ?F" by auto
  let ?r2 = "r\<lparr>pos := pos r + j + k\<rparr>"
  let ?m2 = "m\<lparr>own := (own m)(n \<mapsto> val n)\<rparr>"
  have step: "decode_step fdec byId s r m = (Inr (?r2, ?m2), s)"
    by (simp add: decode_step_def tg look fd decode_known_def nf Let_def add.assoc)
  have r2: "drop (pos ?r2) (buf ?r2) = ?rest"
  proof -
    have "drop (pos r + (j + k)) (buf r) = drop (j + k) (drop (pos r) (buf r))"
      by (simp add: add.commute)
    also have "\<dots> = ?rest" by (simp add: split len)
    finally show ?thesis by (simp add: add.assoc)
  qed
  have "pos r + j + k \<le> length (buf r)" using total len j by (simp only: length_drop)
  then have in2: "pos ?r2 \<le> length (buf ?r2)" by simp
  have sub1: "\<forall>(n, f) \<in> set ps. byId (field_id (objs s f)) = Some f"
    and sub2: "\<forall>(n, f) \<in> set ps. name (objs s f) = n \<and> \<not> repeated (objs s f)"
    using Cons.prems(1,2) by simp_all
  have sub3: "\<forall>(n, f) \<in> set ps. \<forall>r rest.
        drop (pos r) (buf r) = chunk (objs s f) (val n) @ rest \<longrightarrow>
        (\<exists>wt j k. Reader_tag r
                     = Inr (\<lparr>tag_id = field_id (objs s f), wireType = wt\<rparr>, r\<lparr>pos := pos r + j\<rparr>)
           \<and> fdec (objs s f) (r\<lparr>pos := pos r + j\<rparr>) wt = Inr (Single (val n), k)
           \<and> j + k = length (chunk (objs s f) (val n)))"
    using Cons.prems(3) by simp
  from Cons.IH[OF sub1 sub2 sub3 r2 in2, of ?m2]
  have "decode_loop fdec byId (length (buf r)) s ?r2 ?m2 =
     (Inr (r\<lparr>pos := length (buf r)\<rparr>,
           m\<lparr>own := put_all val ((n, f) # ps) (own m)\<rparr>), s)"
    by (simp add: put_all_Cons put_all_Cons_if)
  with decode_loop_step[OF lt step] show ?case by (simp add: p)
qed


lemma Type_fieldsById_state:
  "objs (snd (Type_fieldsById s t)) = objs s \<and> arrays (snd (Type_fieldsById s t)) = arrays s"
  by (auto simp: Type_fieldsById_def Type_fieldNames_def upd_type_def Let_def
        split: option.splits prod.splits)

text \<open>
  Where no field of the type is repeated, the round trip holds for every field codec
  that round-trips on the values written: \<open>encode\<close> succeeds, \<open>decode\<close> of the
  bytes returns an instance, and the instance shows the value of the message under every
  field that was written.
\<close>

lemma roundtrip_singular:
  assumes ok: "codec_ok fenc fdec chunk okv"
    and d: "distinct (map fst (tfields (types s t)))"
    and k: "keyed_by_name (objs s) (tfields (types s t))"
    and ids: "distinct (field_ids (objs s) (tfields (types s t)))"
    and coh: "names_coherent (types s t)"
    and nc: "cached_fieldsById (types s t) = None"
    and sing: "\<forall>(n, f) \<in> set (tfields (types s t)). \<not> repeated (objs s f)"
    and vals: "\<forall>(n, f) \<in> set (tfields (types s t)).
        must_write cz (arrays s) (objs s f) (msg_get m n) \<longrightarrow> okv (objs s f) (msg_get m n)"
  shows "\<exists>bytes s1 m' s2.
      Type_encode fenc cz s t m [] = (Inr bytes, s1)
      \<and> Type_decode fdec s1 t \<lparr>buf = bytes, pos = 0\<rparr> None = (Inr m', s2)
      \<and> (\<forall>(n, f) \<in> set (tfields (types s t)).
            must_write cz (arrays s) (objs s f) (msg_get m n) \<longrightarrow> msg_get m' n = msg_get m n)"
proof -
  let ?fs = "tfields (types s t)"
  let ?ks = "map fst ?fs"
  let ?ps = "written cz s m ?fs"
  let ?bytes = "chunks chunk s m ?ps"
  let ?r = "\<lparr>buf = ?bytes, pos = 0\<rparr>"
  obtain ns s1 where fn: "Type_fieldNames s t = (ns, s1)" by (cases "Type_fieldNames s t")
  with Type_fieldNames_coherent[OF coh]
  have ns: "ns = ?ks" and t1: "types s1 t = (types s t)\<lparr>cached_fieldNames := Some ?ks\<rparr>"
    and o1: "objs s1 = objs s" "arrays s1 = arrays s" by auto
  have enc: "\<forall>(n, f) \<in> set ?fs. must_write cz (arrays s) (objs s f) (msg_get m n)
                \<longrightarrow> (\<forall>w. fenc s1 (objs s f) (msg_get m n) w
                        = Inr (w @ chunk (objs s f) (msg_get m n)))"
    using ok vals unfolding codec_ok_def by blast
  have e: "Type_encode fenc cz s t m [] = (Inr ?bytes, s1)"
    using encode_loop_chunks[OF d subset_refl enc, of "[]"]
    by (simp add: Type_encode_def fn ns t1 o1 written_def chunks_def)
  have coh1: "names_coherent (types s1 t)" by (simp add: t1 names_coherent_def)
  from Type_create_coherent[OF coh1, of "Some Map.empty"] obtain m0 s2 where
    c: "Type_create s1 t (Some Map.empty) = (Inr m0, s2)"
    and t2: "types s2 t = (types s1 t)\<lparr>cached_fieldNames := Some (map fst (tfields (types s1 t))),
                                       cached_prototype := Some (proto m0)\<rparr>"
    and o2: "objs s2 = objs s1" by auto
  have p2: "cached_fieldsById (types s2 t) = None" "names_coherent (types s2 t)"
    "distinct (map fst (tfields (types s2 t)))" "tfields (types s2 t) = ?fs"
    "distinct (field_ids (objs s2) (tfields (types s2 t)))"
    using nc d ids by (simp_all add: t2 t1 o2 o1 names_coherent_def)
  obtain b s3 where fb: "Type_fieldsById s2 t = (b, s3)" by (cases "Type_fieldsById s2 t")
  from Type_fieldsById_fresh[OF p2(1,2,3)] p2(5) fb obtain byId where
    b: "b = Inr byId" and all: "\<forall>(n, f) \<in> set ?fs. byId (field_id (objs s f)) = Some f"
    by (auto simp: p2(4) o2 o1)
  from Type_fieldsById_state[of s2 t] fb have o3: "objs s3 = objs s"
    by (simp add: o2 o1)
  have sub: "set ?ps \<subseteq> set ?fs" by (auto simp: written_def)
  have w: "\<forall>(n, f) \<in> set ?ps. must_write cz (arrays s) (objs s f) (msg_get m n)"
    by (auto simp: written_def)
  have byid: "\<forall>(n, f) \<in> set ?ps. byId (field_id (objs s3 f)) = Some f"
    using all sub unfolding o3 by blast
  have nm: "\<forall>(n, f) \<in> set ?ps. name (objs s3 f) = n \<and> \<not> repeated (objs s3 f)"
    using k sing sub unfolding o3 keyed_by_name_def list_all_iff by blast
  have dec: "\<forall>(n, f) \<in> set ?ps. \<forall>r rest.
        drop (pos r) (buf r) = chunk (objs s3 f) (msg_get m n) @ rest \<longrightarrow>
        (\<exists>wt j k. Reader_tag r
                     = Inr (\<lparr>tag_id = field_id (objs s3 f), wireType = wt\<rparr>, r\<lparr>pos := pos r + j\<rparr>)
           \<and> fdec (objs s3 f) (r\<lparr>pos := pos r + j\<rparr>) wt = Inr (Single (msg_get m n), k)
           \<and> j + k = length (chunk (objs s3 f) (msg_get m n)))"
  proof (intro ballI, clarify)
    fix n f and r :: Reader and rest
    assume mem: "(n, f) \<in> set ?ps"
      and dr: "drop (pos r) (buf r) = chunk (objs s3 f) (msg_get m n) @ rest"
    from mem w sub vals have "okv (objs s f) (msg_get m n)" by blast
    with ok dr show "\<exists>wt j k. Reader_tag r
                     = Inr (\<lparr>tag_id = field_id (objs s3 f), wireType = wt\<rparr>, r\<lparr>pos := pos r + j\<rparr>)
           \<and> fdec (objs s3 f) (r\<lparr>pos := pos r + j\<rparr>) wt = Inr (Single (msg_get m n), k)
           \<and> j + k = length (chunk (objs s3 f) (msg_get m n))"
      unfolding codec_ok_def o3 by blast
  qed
  have bytes: "drop (pos ?r) (buf ?r) = concat (map (\<lambda>(n, f). chunk (objs s3 f) (msg_get m n)) ?ps)"
    by (simp add: chunks_def o3)
  have inside: "pos ?r \<le> length (buf ?r)" by simp
  from decode_loop_chunks[OF byid nm dec bytes inside, of m0]
  have loop: "decode_loop fdec byId (length ?bytes) s3 ?r m0 =
     (Inr (?r\<lparr>pos := length ?bytes\<rparr>, m0\<lparr>own := put_all (msg_get m) ?ps (own m0)\<rparr>), s3)"
    by simp
  let ?m' = "m0\<lparr>own := put_all (msg_get m) ?ps (own m0)\<rparr>"
  have dcd: "Type_decode fdec s1 t ?r None = (Inr ?m', s3)"
    by (simp add: Type_decode_def decode_limit_def c fb b loop Let_def)
  have "msg_get ?m' n = msg_get m n"
    if "(n, f) \<in> set ?fs" "must_write cz (arrays s) (objs s f) (msg_get m n)" for n f
  proof -
    from that have "(n, f) \<in> set ?ps" by (simp add: written_def)
    then have "n \<in> fst ` set ?ps" by force
    then show ?thesis by (simp add: msg_get_def put_all_def)
  qed
  with e dcd show ?thesis by blast
qed


lemma read_write_varint:
  "read_varint (write_varint n @ rest) = Some (n, length (write_varint n))"
proof (induction n rule: write_varint.induct)
  case (1 n)
  show ?case
  proof (cases "n < 128")
    case True
    then show ?thesis by (simp add: write_varint.simps)
  next
    case False
    with 1 have IH: "read_varint (write_varint (n div 128) @ rest)
        = Some (n div 128, length (write_varint (n div 128)))" by simp
    have w: "write_varint n = (128 + n mod 128) # write_varint (n div 128)"
      using False by (subst write_varint.simps) simp
    show ?thesis by (simp add: w IH)
  qed
qed

lemma sample_codec_ok: "codec_ok sample_encode sample_decode sample_chunk sample_ok"
  unfolding codec_ok_def
proof (intro allI impI conjI)
  fix F v s w
  assume "sample_ok F v"
  then obtain n where v: "v = JNum n" "0 \<le> n" by (cases v) auto
  then show "sample_encode s F v w = Inr (w @ sample_chunk F v)"
    by (simp add: sample_encode_def sample_chunk_def)
next
  fix F v and r :: Reader and rest
  assume "sample_ok F v" and dr: "drop (pos r) (buf r) = sample_chunk F v @ rest"
  then obtain n where v: "v = JNum n" "0 \<le> n" by (cases v) auto
  let ?t = "write_varint (8 * field_id F)" and ?p = "write_varint (nat n)"
  from dr v have d0: "drop (pos r) (buf r) = ?t @ (?p @ rest)"
    by (simp add: sample_chunk_def)
  have tg: "Reader_tag r = Inr (\<lparr>tag_id = field_id F, wireType = 0\<rparr>, r\<lparr>pos := pos r + length ?t\<rparr>)"
    by (simp add: Reader_tag_def Reader_uint32_def d0 read_write_varint)
  have "drop (pos r + length ?t) (buf r) = drop (length ?t) (drop (pos r) (buf r))"
    by (simp add: add.commute)
  then have d1: "drop (pos r + length ?t) (buf r) = ?p @ rest" by (simp add: d0)
  have fd: "sample_decode F (r\<lparr>pos := pos r + length ?t\<rparr>) 0 = Inr (Single v, length ?p)"
    using v by (simp add: sample_decode_def d1 read_write_varint)
  have "length ?t + length ?p = length (sample_chunk F v)"
    using v by (simp add: sample_chunk_def)
  with tg fd show "\<exists>wt j k. Reader_tag r
        = Inr (\<lparr>tag_id = field_id F, wireType = wt\<rparr>, r\<lparr>pos := pos r + j\<rparr>)
      \<and> sample_decode F (r\<lparr>pos := pos r + j\<rparr>) wt = Inr (Single v, k)
      \<and> j + k = length (sample_chunk F v)"
    by blast
qed


lemma roundtrip_singular_example:
  "\<exists>bytes s1 m' s2.
      Type_encode sample_encode sample_coercions count_store 0
        \<lparr>own = [''count'' \<mapsto> JNum 9], proto = Map.empty\<rparr> [] = (Inr bytes, s1)
      \<and> Type_decode sample_decode s1 0 \<lparr>buf = bytes, pos = 0\<rparr> None = (Inr m', s2)
      \<and> msg_get m' ''count'' = JNum 9"
proof -
  let ?m = "\<lparr>own = [''count'' \<mapsto> JNum 9], proto = Map.empty\<rparr>"
  have fs: "tfields (types count_store 0) = [(''count'', 3)]"
    by (simp add: model_defs sample_defs)
  have h: "distinct (map fst (tfields (types count_store 0)))"
    "keyed_by_name (objs count_store) (tfields (types count_store 0))"
    "distinct (field_ids (objs count_store) (tfields (types count_store 0)))"
    "names_coherent (types count_store 0)"
    "cached_fieldsById (types count_store 0) = None"
    "\<forall>(n, f) \<in> set (tfields (types count_store 0)). \<not> repeated (objs count_store f)"
    by (simp_all add: names_coherent_def keyed_by_name_def field_ids_def model_defs sample_defs)
  have v: "\<forall>(n, f) \<in> set (tfields (types count_store 0)).
        must_write sample_coercions (arrays count_store) (objs count_store f) (msg_get ?m n)
          \<longrightarrow> sample_ok (objs count_store f) (msg_get ?m n)"
    by (simp add: fs msg_get_def)
  have w: "must_write sample_coercions (arrays count_store) (objs count_store 3) (msg_get ?m ''count'')"
    by (simp add: must_write_def model_defs sample_defs)
  from roundtrip_singular[OF sample_codec_ok h v] obtain bytes s1 m' s2 where
    r: "Type_encode sample_encode sample_coercions count_store 0 ?m [] = (Inr bytes, s1)"
       "Type_decode sample_decode s1 0 \<lparr>buf = bytes, pos = 0\<rparr> None = (Inr m', s2)"
       "\<forall>(n, f) \<in> set (tfields (types count_store 0)).
            must_write sample_coercions (arrays count_store) (objs count_store f) (msg_get ?m n)
              \<longrightarrow> msg_get m' n = msg_get ?m n"
    by blast
  from r(3) w have "msg_get m' ''count'' = msg_get ?m ''count''" by (simp add: fs)
  then have "msg_get m' ''count'' = JNum 9" by (simp add: msg_get_def)
  with r(1,2) show ?thesis by blast
qed

text \<open>
  C1 does not hold of the code. \<open>create\<close> stores the default array of a repeated
  field itself on the instance, and \<open>decode\<close> appends to the array it finds there.
  In the first round trip the message with \<open>items\<close> = [7] is written as the bytes
  24, 7, and the decoded instance shows [7]: its \<open>items\<close> is the default array of the
  field, which now holds 7. In the second round trip the same message is written as
  the same bytes, and the decoded instance shows [7, 7].
\<close>

theorem roundtrip_repeated_differs:
  "(case fst rt_first of (m, bytes, d) \<Rightarrow>
      shown_elements (snd rt_first) m ''items'' = [JNum 7] \<and> bytes = [24, 7]
      \<and> msg_get d ''items'' = JArr 0 \<and> shown_elements (snd rt_first) d ''items'' = [JNum 7])
   \<and> (case fst rt_second of (m, bytes, d) \<Rightarrow>
      shown_elements (snd rt_second) m ''items'' = [JNum 7] \<and> bytes = [24, 7]
      \<and> msg_get d ''items'' = JArr 0
      \<and> shown_elements (snd rt_second) d ''items'' = [JNum 7, JNum 7])"
proof -
  have r1: "case fst rt_first of (m, bytes, d) \<Rightarrow>
      shown_elements (snd rt_first) m ''items'' = [JNum 7] \<and> bytes = [24, 7]
      \<and> msg_get d ''items'' = JArr 0 \<and> shown_elements (snd rt_first) d ''items'' = [JNum 7]"
    by (simp add: round_trip_def rt_first_def rt_second_def shown_elements_def items_store_def
          sample_encode_def write_varint.simps decode_loop_unfold model_defs sample_defs
          decode_defs drop_Cons')
  have r2: "case fst rt_second of (m, bytes, d) \<Rightarrow>
      shown_elements (snd rt_second) m ''items'' = [JNum 7] \<and> bytes = [24, 7]
      \<and> msg_get d ''items'' = JArr 0
      \<and> shown_elements (snd rt_second) d ''items'' = [JNum 7, JNum 7]"
    by (simp add: round_trip_def rt_first_def rt_second_def shown_elements_def items_store_def
          sample_encode_def write_varint.simps decode_loop_unfold model_defs sample_defs
          decode_defs drop_Cons')
  from r1 r2 show ?thesis by blast
qed

end
